theory Spec2Isabelle
  imports Main "HOL-Library.Sublist" "HOL-Library.Multiset"
begin

section \<open>Errors\<close>

text \<open>
  Paths of the image are kept as their list of components: \<open>/really/nested\<close> is
  \<open>[''really'', ''nested'']\<close> and \<open>/\<close> is \<open>[]\<close>. A file reference is the pair of
  the owning layer and the real path.
\<close>

type_synonym path = "string list"

record fileReference =
  layerId :: nat
  realPath :: path

datatype error =
    EOF
  | ErrClosed
  | ErrInvalid
  | OsError string
  | PathNotFound path
  | MalformedPath
  | SymlinkCycleOrDepthExceeded
  | UnregisteredReference fileReference

section \<open>The operating system, as far as the deferred reader uses it\<close>

text \<open>
  \<open>pkg/file/deferred_partial_read_closer.go\<close> calls \<open>os.Open\<close>, \<open>File.Seek\<close>,
  \<open>File.Read\<close>, \<open>File.Close\<close> and \<open>io.LimitReader\<close>. An \<open>*os.File\<close> is an index
  into the table \<open>files\<close> of the world, so that the \<open>file\<close> field of the reader and
  the limited reader built on it share one descriptor, as the two pointers do in Go.
  \<open>fault\<close> is the error, if any, that the operating system raises at the k-th call;
  \<open>calls\<close> records every call made so far.
\<close>

record osFile =
  contents :: string
  offset :: int
  closed :: bool

datatype event = Open string | Seek nat int | ReadAt nat nat | CloseFd nat

record world =
  disk :: "string \<Rightarrow> string option"
  files :: "osFile list"
  fault :: "nat \<Rightarrow> error option"
  calls :: "event list"

definition os_Open :: "string \<Rightarrow> world \<Rightarrow> (error + nat) \<times> world" where
  "os_Open name w =
     (let w' = w\<lparr>calls := calls w @ [Open name]\<rparr> in
      case fault w (length (calls w)) of
        Some e \<Rightarrow> (Inl e, w')
      | None \<Rightarrow>
          (case disk w name of
             None \<Rightarrow> (Inl (OsError ''ENOENT''), w')
           | Some c \<Rightarrow>
               (Inr (length (files w)),
                w'\<lparr>files := files w @ [\<lparr>contents = c, offset = 0, closed = False\<rparr>]\<rparr>)))"

text \<open>\<open>File.Seek(pos, io.SeekStart)\<close>; a position past the end is accepted.\<close>

definition file_Seek :: "nat \<Rightarrow> int \<Rightarrow> world \<Rightarrow> error option \<times> world" where
  "file_Seek h pos w =
     (let w' = w\<lparr>calls := calls w @ [Seek h pos]\<rparr> in
      if length (files w) \<le> h then (Some ErrInvalid, w')
      else if closed (files w ! h) then (Some ErrClosed, w')
      else case fault w (length (calls w)) of
        Some e \<Rightarrow> (Some e, w')
      | None \<Rightarrow>
          if pos < 0 then (Some (OsError ''EINVAL''), w')
          else (None, w'\<lparr>files := (files w)[h := (files w ! h)\<lparr>offset := pos\<rparr>]\<rparr>))"

text \<open>
  \<open>File.Read\<close> into a buffer of \<open>len\<close> bytes: a closed file answers "file already
  closed", an empty buffer reads nothing, the end of the file answers \<open>io.EOF\<close> with no
  bytes, and otherwise the bytes from the offset on are returned, \<open>len\<close> at most.
\<close>

definition file_Read :: "nat \<Rightarrow> nat \<Rightarrow> world \<Rightarrow> (string \<times> error option) \<times> world" where
  "file_Read h len w =
     (let w' = w\<lparr>calls := calls w @ [ReadAt h len]\<rparr> in
      if length (files w) \<le> h then (([], Some ErrInvalid), w')
      else if closed (files w ! h) then (([], Some ErrClosed), w')
      else if len = 0 then (([], None), w')
      else case fault w (length (calls w)) of
        Some e \<Rightarrow> (([], Some e), w')
      | None \<Rightarrow>
          (let f = files w ! h in
           if int (length (contents f)) \<le> offset f then (([], Some EOF), w')
           else
             (let data = take len (drop (nat (offset f)) (contents f)) in
              ((data, None),
               w'\<lparr>files := (files w)[h := f\<lparr>offset := offset f + int (length data)\<rparr>]\<rparr>))))"

text \<open>
  \<open>File.Close\<close>: a second close answers \<open>os.ErrClosed\<close>; the first one releases the
  descriptor whatever the operating system answers.
\<close>

definition file_Close :: "nat \<Rightarrow> world \<Rightarrow> error option \<times> world" where
  "file_Close h w =
     (let w' = w\<lparr>calls := calls w @ [CloseFd h]\<rparr> in
      if length (files w) \<le> h then (Some ErrInvalid, w')
      else if closed (files w ! h) then (Some ErrClosed, w')
      else (fault w (length (calls w)),
            w'\<lparr>files := (files w)[h := (files w ! h)\<lparr>closed := True\<rparr>]\<rparr>))"

text \<open>\<open>io.LimitedReader\<close>: \<open>R\<close> is the file read from, \<open>N\<close> the bytes remaining.\<close>

record limitedReader =
  R :: nat
  N :: int

definition limited_Read ::
  "limitedReader \<Rightarrow> nat \<Rightarrow> world \<Rightarrow> (string \<times> error option) \<times> limitedReader \<times> world" where
  "limited_Read l len w =
     (if N l \<le> 0 then (([], Some EOF), l, w)
      else
        (let len' = (if N l < int len then nat (N l) else len);
             ((data, err), w') = file_Read (R l) len' w
         in ((data, err), l\<lparr>N := N l - int (length data)\<rparr>, w')))"

section \<open>The deferred partial reader\<close>

text \<open>
  The struct of \<open>deferred_partial_read_closer.go\<close>; its fields \<open>file\<close> and \<open>size\<close> are
  written \<open>file'\<close> and \<open>size'\<close>. \<open>start\<close> and \<open>size\<close> are \<open>int64\<close>; the only
  arithmetic on them is the limited reader's \<open>N - n\<close> with \<open>0 \<le> n \<le> N\<close>, which
  cannot overflow, so they are integers here.
\<close>

record deferredPartialReadCloser =
  path :: string
  file' :: "nat option"
  reader :: "limitedReader option"
  start :: int
  size' :: int

definition newDeferredPartialReadCloser :: "string \<Rightarrow> int \<Rightarrow> int \<Rightarrow> deferredPartialReadCloser" where
  "newDeferredPartialReadCloser p s z =
     \<lparr>path = p, file' = None, reader = None, start = s, size' = z\<rparr>"

text \<open>
  The block \<open>if d.reader == nil { ... }\<close> of \<open>Read\<close>: \<open>Inl\<close> is the early return
  \<open>return 0, err\<close>, which leaves the reader as it was; \<open>Inr\<close> carries the reader
  and the limited reader that \<open>d.reader\<close> holds when the block is left.
\<close>

definition Read_open ::
  "deferredPartialReadCloser \<Rightarrow> world \<Rightarrow>
     (error + deferredPartialReadCloser \<times> limitedReader) \<times> world" where
  "Read_open d w =
     (case reader d of
        Some l \<Rightarrow> (Inr (d, l), w)
      | None \<Rightarrow>
          (case os_Open (path d) w of
             (Inl e, w1) \<Rightarrow> (Inl e, w1)
           | (Inr h, w1) \<Rightarrow>
               (case file_Seek h (start d) w1 of
                  (Some e, w2) \<Rightarrow> (Inl e, w2)
                | (None, w2) \<Rightarrow>
                    (let l = \<lparr>R = h, N = size' d\<rparr>
                     in (Inr (d\<lparr>file' := Some h, reader := Some l\<rparr>, l), w2)))))"

text \<open>
  \<open>Read(b)\<close> with \<open>len(b) = len\<close>; the bytes stored into \<open>b\<close> are returned, and \<open>n\<close>
  is their number. \<open>(*os.File)(nil).Close()\<close> answers \<open>os.ErrInvalid\<close>.
\<close>

definition Read ::
  "deferredPartialReadCloser \<Rightarrow> nat \<Rightarrow> world \<Rightarrow>
     (string \<times> error option) \<times> deferredPartialReadCloser \<times> world" where
  "Read d len w =
     (case Read_open d w of
        (Inl e, w1) \<Rightarrow> (([], Some e), d, w1)
      | (Inr (d1, l), w1) \<Rightarrow>
          (let ((data, err), l', w2) = limited_Read l len w1;
               d2 = d1\<lparr>reader := Some l'\<rparr>
           in if err = Some EOF then
                (let (closeErr, w3) =
                       (case file' d2 of
                          None \<Rightarrow> (Some ErrInvalid, w2)
                        | Some h \<Rightarrow> file_Close h w2)
                 in ((data, if closeErr \<noteq> Some ErrClosed then closeErr else err), d2, w3))
              else ((data, err), d2, w2)))"

definition Close ::
  "deferredPartialReadCloser \<Rightarrow> world \<Rightarrow> error option \<times> deferredPartialReadCloser \<times> world" where
  "Close d w =
     (case file' d of
        None \<Rightarrow> (None, d, w)
      | Some h \<Rightarrow>
          (let (err, w') = file_Close h w;
               err' = (if err = Some ErrClosed then None else err)
           in (err', d\<lparr>file' := None, reader := None\<rparr>, w')))"

text \<open>
  A pool of readers driven by a caller: \<open>New\<close> is \<open>newDeferredPartialReadCloser\<close>,
  \<open>DoRead i n\<close> is \<open>Read\<close> on the i-th reader with a buffer of \<open>n\<close> bytes, \<open>DoClose i\<close>
  is its \<open>Close\<close>.
\<close>

datatype op = New string int int | DoRead nat nat | DoClose nat

fun isRead :: "op \<Rightarrow> bool" where
  "isRead (DoRead i n) = True"
| "isRead _ = False"

fun step :: "op \<Rightarrow> deferredPartialReadCloser list \<times> world \<Rightarrow> deferredPartialReadCloser list \<times> world" where
  "step (New p s z) (ds, w) = (ds @ [newDeferredPartialReadCloser p s z], w)"
| "step (DoRead i n) (ds, w) =
     (if i < length ds then (let (r, d', w') = Read (ds ! i) n w in (ds[i := d'], w'))
      else (ds, w))"
| "step (DoClose i) (ds, w) =
     (if i < length ds then (let (r, d', w') = Close (ds ! i) w in (ds[i := d'], w'))
      else (ds, w))"

text \<open>
  A caller that reads one reader with buffers of the given lengths, one call after the
  other whatever the calls answer; the result is every byte returned and the last state.
\<close>

fun reads ::
  "nat list \<Rightarrow> deferredPartialReadCloser \<Rightarrow> world \<Rightarrow> string \<times> deferredPartialReadCloser \<times> world" where
  "reads [] d w = ([], d, w)"
| "reads (n # ns) d w =
     (let ((data, err), d', w') = Read d n w;
          (rest, d'', w'') = reads ns d' w'
      in (data @ rest, d'', w''))"

text \<open>
  \<open>ioutil.ReadAll\<close>, as the integration test reads a reader: \<open>Read\<close> with a buffer of
  \<open>len\<close> bytes until it answers an error; \<open>io.EOF\<close> ends the loop as success. The
  loop is bounded by \<open>fuel\<close>, and \<open>None\<close> is a loop that has not ended within it.
\<close>

fun readAll ::
  "nat \<Rightarrow> nat \<Rightarrow> deferredPartialReadCloser \<Rightarrow> world \<Rightarrow> string \<Rightarrow>
     (string \<times> error option \<times> deferredPartialReadCloser \<times> world) option" where
  "readAll 0 len d w acc = None"
| "readAll (Suc fuel) len d w acc =
     (case Read d len w of
        ((data, Some e), d', w') \<Rightarrow>
          Some (acc @ data, if e = EOF then None else Some e, d', w')
      | ((data, None), d', w') \<Rightarrow> readAll fuel len d' w' (acc @ data))"

section \<open>Auxiliary notions for the reader's properties\<close>

text \<open>The calls that touch the archive location before any byte is read.\<close>

fun opensOrSeeks :: "event \<Rightarrow> bool" where
  "opensOrSeeks (Open p) = True"
| "opensOrSeeks (Seek h pos) = True"
| "opensOrSeeks _ = False"

text \<open>
  Every descriptor a reader of the pool holds was handed out by \<open>os.Open\<close>, so it is
  an entry of the table of files.
\<close>

definition handlesValid :: "deferredPartialReadCloser list \<times> world \<Rightarrow> bool" where
  "handlesValid st = (\<forall>d\<in>set (fst st). \<forall>h. file' d = Some h \<longrightarrow> h < length (files (snd st)))"

text \<open>
  The bytes a reader may still return: its size while it is unopened, the remaining
  count of its limited reader afterwards.
\<close>

definition budget :: "deferredPartialReadCloser \<Rightarrow> int" where
  "budget d = (case reader d of None \<Rightarrow> size' d | Some l \<Rightarrow> N l)"

text \<open>
  Concrete worlds and readers: an archive of 22 bytes; a world whose operating system
  fails the fourth call (the close that follows open, seek and read); one where it fails
  the first call (an open, when too many files are open); a history that
  leaves one reader open, one released at the end of its file and one never read; and
  readers in the states the properties speak of.
\<close>

definition quietWorld :: world where
  "quietWorld =
     \<lparr>disk = Map.empty(''/layer.tar'' \<mapsto> ''this file has contents''),
      files = [], fault = (\<lambda>k. None), calls = []\<rparr>"

definition failingCloseWorld :: world where
  "failingCloseWorld = quietWorld\<lparr>fault := (\<lambda>k. if k = 3 then Some (OsError ''EIO'') else None)\<rparr>"

definition busyWorld :: world where
  "busyWorld = quietWorld\<lparr>fault := (\<lambda>k. if k = 0 then Some (OsError ''EMFILE'') else None)\<rparr>"

definition demoHistory :: "op list" where
  "demoHistory = [New ''/layer.tar'' 5 4, DoRead 0 2]"

definition poolHistory :: "op list" where
  "poolHistory =
     [New ''/layer.tar'' 5 4, DoRead 0 2,
      New ''/layer.tar'' 18 10, DoRead 1 8, DoRead 1 8,
      New ''/layer.tar'' 0 1]"

definition openedReader :: deferredPartialReadCloser where
  "openedReader = fst (snd (Read (newDeferredPartialReadCloser ''/layer.tar'' 5 4) 2 quietWorld))"

definition drainedReader :: deferredPartialReadCloser where
  "drainedReader = fst (snd (Read (newDeferredPartialReadCloser ''/layer.tar'' 18 10) 8 quietWorld))"

definition drainedWorld :: world where
  "drainedWorld = snd (snd (Read (newDeferredPartialReadCloser ''/layer.tar'' 18 10) 8 quietWorld))"

definition consumedReader :: deferredPartialReadCloser where
  "consumedReader = fst (snd (Read (newDeferredPartialReadCloser ''/layer.tar'' 5 4) 8 quietWorld))"

definition consumedWorld :: world where
  "consumedWorld = snd (snd (Read (newDeferredPartialReadCloser ''/layer.tar'' 5 4) 8 quietWorld))"

section \<open>The file catalog\<close>

text \<open>
  Modelled from the spec: the FileCatalog is not among the sources. An entry maps a file
  reference to its content locator: archive, byte offset and length.
\<close>

record locator =
  archive :: string
  byteOffset :: int
  byteLength :: int

type_synonym fileCatalog = "fileReference \<Rightarrow> locator option"

text \<open>
  Modelled from the spec: \<open>Add(ref, locator)\<close> "registers the archive location for a
  FileReference's content".
\<close>

definition Add :: "fileReference \<Rightarrow> locator \<Rightarrow> fileCatalog \<Rightarrow> fileCatalog" where
  "Add ref loc cat = cat(ref \<mapsto> loc)"

text \<open>
  Modelled from the spec: \<open>FileContents(ref)\<close> returns the lazy reader over the byte range
  of a registered reference, and fails with UnregisteredReference for a reference that
  was never added.
\<close>

definition FileContents :: "fileCatalog \<Rightarrow> fileReference \<Rightarrow> error + deferredPartialReadCloser" where
  "FileContents cat ref =
     (case cat ref of
        None \<Rightarrow> Inl (UnregisteredReference ref)
      | Some loc \<Rightarrow> Inr (newDeferredPartialReadCloser (archive loc) (byteOffset loc) (byteLength loc)))"

text \<open>
  Modelled from the spec: \<open>MultipleFileContents(refs...)\<close> returns a map from reference to
  lazy reader, and "fails atomically (no partial result) identifying the first
  unregistered reference if any ref was never added".
\<close>

fun MultipleFileContents ::
  "fileCatalog \<Rightarrow> fileReference list \<Rightarrow> error + (fileReference \<Rightarrow> deferredPartialReadCloser option)" where
  "MultipleFileContents cat [] = Inr Map.empty"
| "MultipleFileContents cat (ref # refs) =
     (case FileContents cat ref of
        Inl e \<Rightarrow> Inl e
      | Inr rd \<Rightarrow>
          (case MultipleFileContents cat refs of
             Inl e \<Rightarrow> Inl e
           | Inr m \<Rightarrow> Inr (m(ref \<mapsto> rd))))"

section \<open>The helpers behind \<open>Image.Resolve\<close> and \<open>Image.MultipleFileContentsFromSquash\<close>\<close>

text \<open>
  \<open>ft.File(path, filetree.FollowBasenameLinks)\<close> is not among the sources; the helpers
  take it as the function \<open>ftFile\<close> from a path to Go's triple
  \<open>(exists, fileReference, err)\<close>, a nil pointer or error being \<open>None\<close>. An outcome is
  the pair Go returns: \<open>Return\<close> is \<open>(value, nil)\<close>, \<open>Failure\<close> is \<open>(nil, err)\<close>, and
  \<open>Panic\<close> is the nil dereference of \<open>*fileReference\<close>. The second component lists the
  calls made to the catalog.
\<close>

type_synonym fileResult = "bool \<times> fileReference option \<times> error option"

datatype 'a outcome = Return 'a | Failure error | Panic

datatype catalogCall = CallFileContents fileReference | CallMultipleFileContents "fileReference list"

definition fetchFileContentsByPath ::
  "(path \<Rightarrow> fileResult) \<Rightarrow> fileCatalog \<Rightarrow> path \<Rightarrow> deferredPartialReadCloser outcome \<times> catalogCall list" where
  "fetchFileContentsByPath ftFile fileCatalog p =
     (case ftFile p of
        (exists, fileReference, Some err) \<Rightarrow> (Failure err, [])
      | (exists, fileReference, None) \<Rightarrow>
          if \<not> exists \<and> fileReference = None then (Failure (PathNotFound p), [])
          else
            (case fileReference of
               None \<Rightarrow> (Panic, [])
             | Some ref \<Rightarrow>
                 (case FileContents fileCatalog ref of
                    Inl err \<Rightarrow> (Failure err, [CallFileContents ref])
                  | Inr rd \<Rightarrow> (Return rd, [CallFileContents ref]))))"

text \<open>The loop \<open>for idx, p := range paths\<close>, which fills \<open>fileReferences\<close>.\<close>

fun resolvePaths :: "(path \<Rightarrow> fileResult) \<Rightarrow> path list \<Rightarrow> fileReference list outcome" where
  "resolvePaths ftFile [] = Return []"
| "resolvePaths ftFile (p # ps) =
     (case ftFile p of
        (exists, fileReference, Some err) \<Rightarrow> Failure err
      | (exists, fileReference, None) \<Rightarrow>
          if \<not> exists \<and> fileReference = None then Failure (PathNotFound p)
          else
            (case fileReference of
               None \<Rightarrow> Panic
             | Some ref \<Rightarrow>
                 (case resolvePaths ftFile ps of
                    Return refs \<Rightarrow> Return (ref # refs)
                  | Failure err \<Rightarrow> Failure err
                  | Panic \<Rightarrow> Panic)))"

definition fetchMultipleFileContentsByPath ::
  "(path \<Rightarrow> fileResult) \<Rightarrow> fileCatalog \<Rightarrow> path list \<Rightarrow>
     (fileReference \<Rightarrow> deferredPartialReadCloser option) outcome \<times> catalogCall list" where
  "fetchMultipleFileContentsByPath ftFile fileCatalog paths =
     (case resolvePaths ftFile paths of
        Failure err \<Rightarrow> (Failure err, [])
      | Panic \<Rightarrow> (Panic, [])
      | Return fileReferences \<Rightarrow>
          (case MultipleFileContents fileCatalog fileReferences of
             Inl err \<Rightarrow> (Failure err, [CallMultipleFileContents fileReferences])
           | Inr readers \<Rightarrow> (Return readers, [CallMultipleFileContents fileReferences])))"

text \<open>
  The error with which a path fails to resolve, the reference it resolves to, and the
  reader the catalog makes for a locator.
\<close>

definition pathError :: "(path \<Rightarrow> fileResult) \<Rightarrow> path \<Rightarrow> error option" where
  "pathError ftFile p =
     (case ftFile p of
        (exists, fileReference, Some err) \<Rightarrow> Some err
      | (exists, fileReference, None) \<Rightarrow>
          if \<not> exists \<and> fileReference = None then Some (PathNotFound p) else None)"

definition resolved :: "(path \<Rightarrow> fileResult) \<Rightarrow> path \<Rightarrow> fileReference option" where
  "resolved ftFile p =
     (case ftFile p of
        (exists, Some ref, None) \<Rightarrow> Some ref
      | _ \<Rightarrow> None)"

definition readerFor :: "locator \<Rightarrow> deferredPartialReadCloser" where
  "readerFor loc = newDeferredPartialReadCloser (archive loc) (byteOffset loc) (byteLength loc)"

text \<open>
  A tree in which \<open>/link\<close> resolves to the file \<open>/real/target\<close>, \<open>/loop\<close> is a cycle
  of links and \<open>/somefile-2.txt\<close> was never added to the catalog.
\<close>

definition targetRef :: fileReference where
  "targetRef = \<lparr>layerId = 0, realPath = [''real'', ''target'']\<rparr>"

definition otherRef :: fileReference where
  "otherRef = \<lparr>layerId = 1, realPath = [''somefile-2.txt'']\<rparr>"

definition targetLoc :: locator where
  "targetLoc = \<lparr>archive = ''/layer.tar'', byteOffset = 5, byteLength = 4\<rparr>"

definition demoFile :: "path \<Rightarrow> fileResult" where
  "demoFile p =
     (if p = [''link''] \<or> p = [''real'', ''target''] then (True, Some targetRef, None)
      else if p = [''somefile-2.txt''] then (True, Some otherRef, None)
      else if p = [''loop''] then (False, None, Some SymlinkCycleOrDepthExceeded)
      else (False, None, None))"

definition demoCatalog :: fileCatalog where
  "demoCatalog = Add targetRef targetLoc Map.empty"

section \<open>File trees\<close>

text \<open>
  Modelled from the spec: the FileTree and its node arena are not among the sources. A
  node is tagged Directory, RegularFile, Symlink, Whiteout or OpaqueWhiteout and holds a
  link target, a file reference and a mapping from child name to child node; its name
  is the key under which its parent holds it, so sibling names are unique. A tree is
  its root node; trees are values, so no node is shared between two trees and a deep
  copy is the tree itself.
\<close>

datatype nodeKind = Directory | RegularFile | Symlink | Whiteout | OpaqueWhiteout

record nodeInfo =
  kind :: nodeKind
  linkTarget :: "path option"
  reference :: "fileReference option"

datatype treeNode = TreeNode (info: nodeInfo) (children: "string \<Rightarrow> treeNode option")

type_synonym fileTree = treeNode

text \<open>Modelled from the spec: an intermediate Directory node, created as needed.\<close>

definition dirInfo :: nodeInfo where
  "dirInfo = \<lparr>kind = Directory, linkTarget = None, reference = None\<rparr>"

definition emptyDir :: treeNode where
  "emptyDir = TreeNode dirInfo (\<lambda>name. None)"

text \<open>Modelled from the spec: the empty tree, a root directory without children.\<close>

definition NewFileTree :: fileTree where
  "NewFileTree = emptyDir"

text \<open>
  Modelled from the spec: the node a path leads to, component by component, without
  following links (the squasher addresses paths as they are written).
\<close>

fun nodeAt :: "treeNode \<Rightarrow> path \<Rightarrow> treeNode option" where
  "nodeAt t [] = Some t"
| "nodeAt t (x # xs) = (case children t x of None \<Rightarrow> None | Some c \<Rightarrow> nodeAt c xs)"

text \<open>Modelled from the spec: a path is present in a tree when a node is at it.\<close>

definition HasPath :: "fileTree \<Rightarrow> path \<Rightarrow> bool" where
  "HasPath t p = (nodeAt t p \<noteq> None)"

text \<open>
  Modelled from the spec: "insert or overwrite that path", "creating intermediate
  Directory nodes as needed". The node at the path gets the given kind, link target and
  reference; a component that is missing on the way is created as a Directory; nothing
  is discarded, so a node that is overwritten keeps the children it has.
\<close>

fun setNode :: "path \<Rightarrow> nodeInfo \<Rightarrow> treeNode \<Rightarrow> treeNode" where
  "setNode [] i (TreeNode j ch) = TreeNode i ch"
| "setNode (x # xs) i (TreeNode j ch) =
     TreeNode j (ch(x \<mapsto> setNode xs i (case ch x of None \<Rightarrow> emptyDir | Some c \<Rightarrow> c)))"

text \<open>
  Modelled from the spec: "delete \<open>D/name\<close> from the accumulator, if present (no-op
  otherwise)". The node goes with everything beneath it; the root cannot be deleted.
\<close>

fun removePath :: "path \<Rightarrow> treeNode \<Rightarrow> treeNode" where
  "removePath [] t = t"
| "removePath [x] (TreeNode j ch) = TreeNode j (ch(x := None))"
| "removePath (x # y # ys) (TreeNode j ch) =
     (case ch x of
        None \<Rightarrow> TreeNode j ch
      | Some c \<Rightarrow> TreeNode j (ch(x \<mapsto> removePath (y # ys) c)))"

text \<open>
  Modelled from the spec: "discard every child currently under \<open>D\<close>"; \<open>D\<close> itself
  stays.
\<close>

fun removeChildPaths :: "path \<Rightarrow> treeNode \<Rightarrow> treeNode" where
  "removeChildPaths [] (TreeNode j ch) = TreeNode j (\<lambda>name. None)"
| "removeChildPaths (x # xs) (TreeNode j ch) =
     (case ch x of
        None \<Rightarrow> TreeNode j ch
      | Some c \<Rightarrow> TreeNode j (ch(x \<mapsto> removeChildPaths xs c)))"

section \<open>The squasher\<close>

text \<open>
  Modelled from the spec: the Squasher is not among the sources. A layer's change-set
  is the enumeration of its entries. A non-marker entry (file, directory, symlink) names
  the path it adds; a Whiteout entry named for the sibling \<open>name\<close> under the directory \<open>D\<close>
  has the path \<open>D/name\<close> that it deletes; an OpaqueWhiteout entry has the path of the
  directory \<open>D\<close> it marks.
\<close>

record entry =
  epath :: path
  ekind :: nodeKind
  etarget :: "path option"

text \<open>Modelled from the spec: the marker kinds, Whiteout and OpaqueWhiteout.\<close>

definition isMarker :: "nodeKind \<Rightarrow> bool" where
  "isMarker k = (k = Whiteout \<or> k = OpaqueWhiteout)"

text \<open>
  Modelled from the spec: what step 2 writes for an entry of layer \<open>i\<close>: its kind, its
  link target when it is a symlink, and a file reference at layer \<open>i\<close> when it is a
  regular file or a symlink.
\<close>

definition entryInfo :: "nat \<Rightarrow> entry \<Rightarrow> nodeInfo" where
  "entryInfo i e =
     \<lparr>kind = ekind e,
      linkTarget = (if ekind e = Symlink then etarget e else None),
      reference = (if ekind e = RegularFile \<or> ekind e = Symlink
                   then Some \<lparr>layerId = i, realPath = epath e\<rparr> else None)\<rparr>"

text \<open>
  Modelled from the spec: step 1, "for each directory \<open>D\<close> in layer \<open>i\<close> marked with an
  OpaqueWhiteout entry: discard every child currently under \<open>D\<close> in the accumulator
  before processing any other entries".
\<close>

definition opaqueReset :: "entry list \<Rightarrow> fileTree \<Rightarrow> fileTree" where
  "opaqueReset es acc =
     fold (\<lambda>e a. if ekind e = OpaqueWhiteout then removeChildPaths (epath e) a else a) es acc"

text \<open>
  Modelled from the spec: step 2, "for each non-marker entry (file/dir/symlink) in layer
  \<open>i\<close>: insert or overwrite that path in the accumulator, pointing its FileReference at
  layer \<open>i\<close>".
\<close>

definition applyAdds :: "nat \<Rightarrow> entry list \<Rightarrow> fileTree \<Rightarrow> fileTree" where
  "applyAdds i es acc =
     fold (\<lambda>e a. if isMarker (ekind e) then a else setNode (epath e) (entryInfo i e) a) es acc"

text \<open>
  Modelled from the spec: step 3, "for each Whiteout entry named for sibling \<open>name\<close>
  under directory \<open>D\<close> in layer \<open>i\<close>: delete \<open>D/name\<close> from the accumulator, if present".
\<close>

definition applyWhiteouts :: "entry list \<Rightarrow> fileTree \<Rightarrow> fileTree" where
  "applyWhiteouts es acc =
     fold (\<lambda>e a. if ekind e = Whiteout then removePath (epath e) a else a) es acc"

text \<open>Modelled from the spec: the three steps of one layer, in their order.\<close>

definition squashLayer :: "nat \<Rightarrow> entry list \<Rightarrow> fileTree \<Rightarrow> fileTree" where
  "squashLayer i es acc = applyWhiteouts es (applyAdds i es (opaqueReset es acc))"

text \<open>
  Modelled from the spec: the layers in order over a running accumulator; after layer
  \<open>i\<close> the accumulator is copied into the squash tree of index \<open>i\<close>.
\<close>

fun squashFrom :: "nat \<Rightarrow> fileTree \<Rightarrow> entry list list \<Rightarrow> fileTree list" where
  "squashFrom i acc [] = []"
| "squashFrom i acc (es # ls) =
     (let acc' = squashLayer i es acc in acc' # squashFrom (Suc i) acc' ls)"

text \<open>Modelled from the spec: one squash tree per index, the accumulator starting empty.\<close>

definition squash :: "entry list list \<Rightarrow> fileTree list" where
  "squash ls = squashFrom 0 NewFileTree ls"

text \<open>
  Modelled from the spec: the final squash tree, "equal to the last index's result"
  (the empty tree when there is no layer).
\<close>

definition finalSquash :: "entry list list \<Rightarrow> fileTree" where
  "finalSquash ls = last (NewFileTree # squash ls)"

section \<open>Auxiliary notions for the squasher's properties\<close>

text \<open>
  What a layer does to a path \<open>P\<close>: it adds \<open>P\<close>; it adds a path strictly beneath \<open>P\<close>;
  it adds \<open>P\<close> or a path beneath it (either way \<open>P\<close> exists once the adds are applied); it
  whites \<open>P\<close> out; it whites out \<open>P\<close> or one of its ancestors; it carries an opaque
  whiteout of the directory \<open>D\<close>; it carries an opaque whiteout of a proper ancestor of \<open>P\<close>.
\<close>

definition adds :: "entry list \<Rightarrow> path \<Rightarrow> bool" where
  "adds es P = (\<exists>e\<in>set es. \<not> isMarker (ekind e) \<and> epath e = P)"

definition addsBelow :: "entry list \<Rightarrow> path \<Rightarrow> bool" where
  "addsBelow es P = (\<exists>e\<in>set es. \<not> isMarker (ekind e) \<and> strict_prefix P (epath e))"

definition addsAtOrBelow :: "entry list \<Rightarrow> path \<Rightarrow> bool" where
  "addsAtOrBelow es P = (\<exists>e\<in>set es. \<not> isMarker (ekind e) \<and> prefix P (epath e))"

definition whitesOut :: "entry list \<Rightarrow> path \<Rightarrow> bool" where
  "whitesOut es P = (\<exists>e\<in>set es. ekind e = Whiteout \<and> epath e = P)"

definition deletes :: "entry list \<Rightarrow> path \<Rightarrow> bool" where
  "deletes es P = (\<exists>e\<in>set es. ekind e = Whiteout \<and> epath e \<noteq> [] \<and> prefix (epath e) P)"

definition opaque :: "entry list \<Rightarrow> path \<Rightarrow> bool" where
  "opaque es D = (\<exists>e\<in>set es. ekind e = OpaqueWhiteout \<and> epath e = D)"

definition resets :: "entry list \<Rightarrow> path \<Rightarrow> bool" where
  "resets es P = (\<exists>e\<in>set es. ekind e = OpaqueWhiteout \<and> strict_prefix (epath e) P)"

text \<open>
  The data of the node at a path, the data step 2 leaves at a path (that of the last
  entry adding it), and trees none of whose nodes is a marker.
\<close>

definition labelAt :: "treeNode \<Rightarrow> path \<Rightarrow> nodeInfo option" where
  "labelAt t p = map_option info (nodeAt t p)"

fun lastAdd :: "nat \<Rightarrow> entry list \<Rightarrow> path \<Rightarrow> nodeInfo option" where
  "lastAdd i [] q = None"
| "lastAdd i (e # es) q =
     (case lastAdd i es q of
        Some ni \<Rightarrow> Some ni
      | None \<Rightarrow> if \<not> isMarker (ekind e) \<and> epath e = q then Some (entryInfo i e) else None)"

definition markerFree :: "fileTree \<Rightarrow> bool" where
  "markerFree t = (\<forall>p ni. labelAt t p = Some ni \<longrightarrow> \<not> isMarker (kind ni))"

text \<open>
  Concrete layer sequences: the three layers of the \<open>image-simple\<close> fixture of the
  integration test; the scenario of the spec (layer 0 adds \<open>/a\<close>, layer 1 adds \<open>/b\<close>,
  layer 2 carries an opaque whiteout of \<open>/\<close> and adds \<open>/b/nested\<close>); a path added, whited
  out and added again; a path added and whited out two layers later; and one layer that
  adds and whites out the same path.
\<close>

definition fileEntry :: "path \<Rightarrow> entry" where
  "fileEntry p = \<lparr>epath = p, ekind = RegularFile, etarget = None\<rparr>"

definition dirEntry :: "path \<Rightarrow> entry" where
  "dirEntry p = \<lparr>epath = p, ekind = Directory, etarget = None\<rparr>"

definition whiteoutEntry :: "path \<Rightarrow> entry" where
  "whiteoutEntry p = \<lparr>epath = p, ekind = Whiteout, etarget = None\<rparr>"

definition opaqueEntry :: "path \<Rightarrow> entry" where
  "opaqueEntry d = \<lparr>epath = d, ekind = OpaqueWhiteout, etarget = None\<rparr>"

definition imageSimple :: "entry list list" where
  "imageSimple =
     [[fileEntry [''somefile-1.txt'']],
      [fileEntry [''somefile-2.txt'']],
      [dirEntry [''really''], opaqueEntry [''really''], dirEntry [''really'', ''nested''],
       fileEntry [''really'', ''nested'', ''file-3.txt'']]]"


definition readded :: "entry list list" where
  "readded = [[fileEntry [''a'']], [whiteoutEntry [''a'']], [fileEntry [''a'']]]"

definition deletedLater :: "entry list list" where
  "deletedLater =
     [[fileEntry [''a'']], [fileEntry [''b'']], [whiteoutEntry [''a'']], [fileEntry [''c'']]]"

definition addAndWhiteout :: "entry list" where
  "addAndWhiteout = [fileEntry [''a''], whiteoutEntry [''a''], fileEntry [''b'']]"

section \<open>The deferred partial reader: proofs\<close>

lemmas os_defs = os_Open_def file_Seek_def file_Read_def file_Close_def limited_Read_def
  Read_open_def Read_def Close_def newDeferredPartialReadCloser_def Let_def

lemma file_Close_files_length: "length (files (snd (file_Close h w))) = length (files w)"
  by (simp add: file_Close_def Let_def)

lemma file_Read_files_length: "length (files (snd (file_Read h n w))) = length (files w)"
  by (simp add: file_Read_def Let_def split: option.splits)

lemma file_Seek_files_length: "length (files (snd (file_Seek h n w))) = length (files w)"
  by (simp add: file_Seek_def Let_def split: option.splits)

lemma os_Open_handle:
  "os_Open p w = (Inr h, w1) \<Longrightarrow> h = length (files w) \<and> length (files w1) = Suc (length (files w))"
  by (auto simp add: os_Open_def Let_def split: option.splits)

lemma os_Open_fail_files:
  "os_Open p w = (Inl e, w1) \<Longrightarrow> files w1 = files w"
  by (auto simp add: os_Open_def Let_def split: option.splits)

lemma limited_Read_exhausted:
  "N l \<le> 0 \<Longrightarrow> limited_Read l n w = (([], Some EOF), l, w)"
  by (simp add: limited_Read_def)

lemma limited_Read_pos:
  "0 < N l \<Longrightarrow> limited_Read l n w =
     (fst (file_Read (R l) (if N l < int n then nat (N l) else n) w),
      l\<lparr>N := N l - int (length (fst (fst (file_Read (R l) (if N l < int n then nat (N l) else n) w))))\<rparr>,
      snd (file_Read (R l) (if N l < int n then nat (N l) else n) w))"
  by (simp add: limited_Read_def Let_def split_beta)

lemma limited_Read_files_length:
  "length (files (snd (snd (limited_Read l n w)))) = length (files w)"
  by (cases "N l \<le> 0") (simp_all add: limited_Read_exhausted limited_Read_pos file_Read_files_length)

lemma Read_open_files_length:
  "length (files w) \<le> length (files (snd (Read_open d w)))"
proof (cases "reader d")
  case (Some l)
  then show ?thesis by (simp add: Read_open_def)
next
  case None
  show ?thesis
  proof (cases "os_Open (path d) w")
    case (Pair r w1)
    show ?thesis
    proof (cases r)
      case (Inl e)
      with Pair None os_Open_fail_files[of "path d" w e w1] show ?thesis
        by (simp add: Read_open_def)
    next
      case (Inr h)
      with Pair os_Open_handle[of "path d" w h w1]
      have len: "length (files w1) = Suc (length (files w))" by simp
      show ?thesis
        using None Pair Inr len file_Seek_files_length[of h "start d" w1]
        by (cases "file_Seek h (start d) w1") (auto simp add: Read_open_def Let_def split: option.splits)
    qed
  qed
qed

lemma Read_open_handle:
  assumes "Read_open d w = (Inr (d1, l), w1)" and "reader d = None"
  shows "\<exists>h. file' d1 = Some h \<and> h < length (files w1)"
proof (cases "os_Open (path d) w")
  case (Pair r w0)
  show ?thesis
  proof (cases r)
    case (Inl e)
    with Pair assms show ?thesis by (simp add: Read_open_def)
  next
    case (Inr h)
    with Pair os_Open_handle[of "path d" w h w0]
    have len: "h < length (files w0)" by simp
    show ?thesis
      using assms Pair Inr len file_Seek_files_length[of h "start d" w0]
      by (cases "file_Seek h (start d) w0") (auto simp add: Read_open_def Let_def split: option.splits)
  qed
qed

lemma Read_open_file_kept:
  "Read_open d w = (Inr (d1, l), w1) \<Longrightarrow> reader d = Some l0 \<Longrightarrow> d1 = d \<and> w1 = w \<and> l = l0"
  by (simp add: Read_open_def)


lemma Read_fail:
  "Read_open d w = (Inl e, w1) \<Longrightarrow> Read d n w = (([], Some e), d, w1)"
  by (simp add: Read_def)

lemma Read_ok_plain:
  "Read_open d w = (Inr (d1, l), w1) \<Longrightarrow> limited_Read l n w1 = ((data, err), l', w2) \<Longrightarrow>
   err \<noteq> Some EOF \<Longrightarrow> Read d n w = ((data, err), d1\<lparr>reader := Some l'\<rparr>, w2)"
  by (simp add: Read_def)

lemma Read_ok_eof:
  "Read_open d w = (Inr (d1, l), w1) \<Longrightarrow> limited_Read l n w1 = ((data, Some EOF), l', w2) \<Longrightarrow>
   file' d1 = Some h \<Longrightarrow>
   Read d n w =
     ((data, if fst (file_Close h w2) \<noteq> Some ErrClosed then fst (file_Close h w2) else Some EOF),
      d1\<lparr>reader := Some l'\<rparr>, snd (file_Close h w2))"
  by (simp add: Read_def split_beta)

lemma Read_ok_eof_nil:
  "Read_open d w = (Inr (d1, l), w1) \<Longrightarrow> limited_Read l n w1 = ((data, Some EOF), l', w2) \<Longrightarrow>
   file' d1 = None \<Longrightarrow>
   Read d n w = ((data, Some ErrInvalid), d1\<lparr>reader := Some l'\<rparr>, w2)"
  by (simp add: Read_def)

lemma Read_handle:
  assumes "Read d n w = (r, d', w')"
      and "\<forall>h. file' d = Some h \<longrightarrow> h < length (files w)"
  shows "(\<forall>h. file' d' = Some h \<longrightarrow> h < length (files w')) \<and> length (files w) \<le> length (files w')"
proof (cases "Read_open d w")
  case (Pair ro w1)
  have le1: "length (files w) \<le> length (files w1)"
    using Read_open_files_length[of w d] Pair by simp
  show ?thesis
  proof (cases ro)
    case (Inl e)
    with Pair assms Read_fail[of d w e w1 n] le1 show ?thesis by auto
  next
    case (Inr p)
    obtain d1 l where p: "p = (d1, l)" by (cases p)
    obtain data err l' w2 where lr: "limited_Read l n w1 = ((data, err), l', w2)"
      by (metis prod.exhaust)
    have le2: "length (files w2) = length (files w1)"
      using limited_Read_files_length[of l n w1] lr by simp
    have ro: "Read_open d w = (Inr (d1, l), w1)" using Pair Inr p by simp
    have f1: "\<forall>h. file' d1 = Some h \<longrightarrow> h < length (files w1)"
    proof (cases "reader d")
      case None
      with Read_open_handle[OF ro] show ?thesis by auto
    next
      case (Some l0)
      with Read_open_file_kept[OF ro] assms(2) show ?thesis by auto
    qed
    show ?thesis
    proof (cases "err = Some EOF")
      case False
      with Read_ok_plain[OF ro lr] assms(1) f1 le1 le2 show ?thesis by auto
    next
      case True
      show ?thesis
      proof (cases "file' d1")
        case None
        with Read_ok_eof_nil[OF ro] lr True assms(1) le1 le2 show ?thesis by auto
      next
        case (Some h)
        have "Read d n w =
          ((data, if fst (file_Close h w2) \<noteq> Some ErrClosed then fst (file_Close h w2) else Some EOF),
            d1\<lparr>reader := Some l'\<rparr>, snd (file_Close h w2))"
          using Read_ok_eof[OF ro _ Some] lr True by simp
        with assms(1) have "d' = d1\<lparr>reader := Some l'\<rparr>" "w' = snd (file_Close h w2)" by simp_all
        with f1 le1 le2 file_Close_files_length[of h w2] show ?thesis by auto
      qed
    qed
  qed
qed


lemma Close_nil: "file' d = None \<Longrightarrow> Close d w = (None, d, w)"
  by (simp add: Close_def)

lemma Close_some:
  "file' d = Some h \<Longrightarrow>
   Close d w = (if fst (file_Close h w) = Some ErrClosed then None else fst (file_Close h w),
                d\<lparr>file' := None, reader := None\<rparr>, snd (file_Close h w))"
  by (simp add: Close_def split_beta)

lemma Close_handle:
  assumes "Close d w = (r, d', w')"
  shows "file' d' = None \<and> length (files w') = length (files w)"
proof (cases "file' d")
  case None
  with assms show ?thesis by (simp add: Close_nil)
next
  case (Some h)
  with assms file_Close_files_length[of h w] show ?thesis by (auto simp add: Close_some)
qed

lemma handlesValid_update:
  assumes "handlesValid (ds, w)" "i < length ds" "length (files w) \<le> length (files w')"
      and "\<forall>h. file' d' = Some h \<longrightarrow> h < length (files w')"
  shows "handlesValid (ds[i := d'], w')"
  unfolding handlesValid_def
proof (intro ballI allI impI)
  fix d h assume d: "d \<in> set (fst (ds[i := d'], w'))" and h: "file' d = Some h"
  from d have "d = d' \<or> d \<in> set ds" using set_update_subset_insert[of ds i d'] by auto
  then show "h < length (files (snd (ds[i := d'], w')))"
  proof
    assume "d = d'" with h assms(4) show ?thesis by simp
  next
    assume "d \<in> set ds"
    with h assms(1) have "h < length (files w)" by (auto simp add: handlesValid_def)
    with assms(3) show ?thesis by simp
  qed
qed

lemma handlesValid_step: "handlesValid st \<Longrightarrow> handlesValid (step x st)"
proof -
  assume hv: "handlesValid st"
  obtain ds w where st: "st = (ds, w)" by (cases st)
  show ?thesis
  proof (cases x)
    case (New p s z)
    with hv st show ?thesis
      by (auto simp add: handlesValid_def newDeferredPartialReadCloser_def)
  next
    case (DoRead i n)
    show ?thesis
    proof (cases "i < length ds")
      case False
      with hv st DoRead show ?thesis by simp
    next
      case True
      obtain r d' w' where rd: "Read (ds ! i) n w = (r, d', w')" by (metis prod.exhaust)
      have "\<forall>h. file' (ds ! i) = Some h \<longrightarrow> h < length (files w)"
        using hv st True by (auto simp add: handlesValid_def)
      from Read_handle[OF rd this] hv st True
      have "handlesValid (ds[i := d'], w')" by (intro handlesValid_update) auto
      with st DoRead True rd show ?thesis by simp
    qed
  next
    case (DoClose i)
    show ?thesis
    proof (cases "i < length ds")
      case False
      with hv st DoClose show ?thesis by simp
    next
      case True
      obtain r d' w' where cl: "Close (ds ! i) w = (r, d', w')" by (metis prod.exhaust)
      from Close_handle[OF cl] hv st True
      have "handlesValid (ds[i := d'], w')" by (intro handlesValid_update) auto
      with st DoClose True cl show ?thesis by simp
    qed
  qed
qed

lemma handlesValid_fold: "handlesValid st \<Longrightarrow> handlesValid (fold step ops st)"
  by (induction ops arbitrary: st) (simp_all add: handlesValid_step)

lemma handlesValid_start: "handlesValid ([], w)"
  by (simp add: handlesValid_def)

text \<open>
  Claim C9, as amended. After any history of \<open>New\<close>, \<open>Read\<close> and \<open>Close\<close> calls
  on a pool of readers, \<open>Close\<close> on a reader that holds no descriptor (never read, open
  failed, or closed before) returns nil and changes nothing; \<open>Close\<close> on a reader whose
  descriptor was already released at the end of the range returns nil; \<open>Close\<close> on a
  reader whose descriptor is still open returns what closing the file returns, nil when
  that close succeeds; and a further \<open>Close\<close> right after always returns nil and
  changes nothing.
\<close>

theorem Close_after_any_history:
  assumes run: "fold step ops ([], w0) = (ds, w)"
      and i: "i < length ds"
      and cl: "Close (ds ! i) w = (r, d', w')"
  shows "(file' (ds ! i) = None \<longrightarrow> r = None \<and> d' = ds ! i \<and> w' = w) \<and>
         (\<forall>h. file' (ds ! i) = Some h \<and> closed (files w ! h) \<longrightarrow> r = None) \<and>
         (\<forall>h. file' (ds ! i) = Some h \<and> \<not> closed (files w ! h) \<longrightarrow>
            r = (if fault w (length (calls w)) = Some ErrClosed then None
                 else fault w (length (calls w)))) \<and>
         Close d' w' = (None, d', w')"
proof -
  have "handlesValid (ds, w)"
    using handlesValid_fold[OF handlesValid_start, of ops w0] run by simp
  with i have valid: "\<forall>h. file' (ds ! i) = Some h \<longrightarrow> h < length (files w)"
    by (auto simp add: handlesValid_def)
  have a: "file' (ds ! i) = None \<longrightarrow> r = None \<and> d' = ds ! i \<and> w' = w"
    using cl by (auto simp add: Close_nil)
  have b: "\<forall>h. file' (ds ! i) = Some h \<and> closed (files w ! h) \<longrightarrow> r = None"
    using cl valid by (auto simp add: Close_some file_Close_def Let_def)
  have c: "\<forall>h. file' (ds ! i) = Some h \<and> \<not> closed (files w ! h) \<longrightarrow>
            r = (if fault w (length (calls w)) = Some ErrClosed then None
                 else fault w (length (calls w)))"
    using cl valid by (auto simp add: Close_some file_Close_def Let_def)
  have "file' d' = None" using Close_handle[OF cl] by simp
  then have d: "Close d' w' = (None, d', w')" by (rule Close_nil)
  from a b c d show ?thesis by blast
qed

text \<open>
  Claim C9 as stated fails: after one successful \<open>Read\<close>, a \<open>Close\<close> whose underlying
  close fails with an error other than "already closed" returns that error.
\<close>

theorem Close_error_counterexample:
  "fst (Close (fst (fold step demoHistory ([], failingCloseWorld)) ! 0)
         (snd (fold step demoHistory ([], failingCloseWorld))))
   = Some (OsError ''EIO'')"
  by (simp add: demoHistory_def os_defs quietWorld_def failingCloseWorld_def)

theorem Close_after_any_history_witness:
  "length (fst (fold step poolHistory ([], quietWorld))) = 3 \<and>
   fst (Close (fst (fold step poolHistory ([], quietWorld)) ! 0)
              (snd (fold step poolHistory ([], quietWorld)))) = None \<and>
   fst (Close (fst (fold step poolHistory ([], quietWorld)) ! 1)
              (snd (fold step poolHistory ([], quietWorld)))) = None \<and>
   fst (Close (fst (fold step poolHistory ([], quietWorld)) ! 2)
              (snd (fold step poolHistory ([], quietWorld)))) = None"
proof -
  let ?st = "fold step poolHistory ([], quietWorld)"
  have run: "fold step poolHistory ([], quietWorld) = (fst ?st, snd ?st)" by simp
  have len: "length (fst ?st) = 3"
    by (simp add: poolHistory_def os_defs quietWorld_def)
  have cl: "Close (fst ?st ! i) (snd ?st) =
      (fst (Close (fst ?st ! i) (snd ?st)), fst (snd (Close (fst ?st ! i) (snd ?st))),
       snd (snd (Close (fst ?st ! i) (snd ?st))))" for i
    by simp
  have opened: "file' (fst ?st ! 0) = Some 0 \<and> \<not> closed (files (snd ?st) ! 0) \<and>
            fault (snd ?st) (length (calls (snd ?st))) = None"
    by (simp add: poolHistory_def os_defs quietWorld_def)
  have released: "file' (fst ?st ! 1) = Some 1 \<and> closed (files (snd ?st) ! 1)"
    by (simp add: poolHistory_def os_defs quietWorld_def)
  have unread: "file' (fst ?st ! 2) = None"
    by (simp add: poolHistory_def os_defs quietWorld_def)
  have i: "0 < length (fst ?st)" "1 < length (fst ?st)" "2 < length (fst ?st)"
    using len by simp_all
  from Close_after_any_history[OF run i(1) cl] opened
  have a: "fst (Close (fst ?st ! 0) (snd ?st)) = None" by simp
  from Close_after_any_history[OF run i(2) cl] released
  have b: "fst (Close (fst ?st ! 1) (snd ?st)) = None" by simp
  from Close_after_any_history[OF run i(3) cl] unread
  have c: "fst (Close (fst ?st ! 2) (snd ?st)) = None" by simp
  from len a b c show ?thesis by simp
qed

lemma os_Open_calls: "calls (snd (os_Open p w)) = calls w @ [Open p]"
  by (simp add: os_Open_def Let_def split: option.splits)

lemma file_Seek_calls: "calls (snd (file_Seek h pos w)) = calls w @ [Seek h pos]"
  by (simp add: file_Seek_def Let_def split: option.splits)

lemma file_Read_calls: "calls (snd (file_Read h n w)) = calls w @ [ReadAt h n]"
  by (simp add: file_Read_def Let_def split: option.splits)

lemma file_Close_calls: "calls (snd (file_Close h w)) = calls w @ [CloseFd h]"
  by (simp add: file_Close_def Let_def)

lemma limited_Read_calls:
  "\<exists>es. calls (snd (snd (limited_Read l n w))) = calls w @ es \<and> (\<forall>e\<in>set es. \<not> opensOrSeeks e)"
proof (cases "N l \<le> 0")
  case True
  then show ?thesis by (simp add: limited_Read_exhausted)
next
  case False
  then have "calls (snd (snd (limited_Read l n w))) =
             calls w @ [ReadAt (R l) (if N l < int n then nat (N l) else n)]"
    by (simp add: limited_Read_pos file_Read_calls)
  then show ?thesis by simp
qed

text \<open>What a Read adds to the calls once the reader is open.\<close>

lemma Read_tail_calls:
  assumes ro: "Read_open d w = (Inr (d1, l), w1)"
  shows "\<exists>es. calls (snd (snd (Read d n w))) = calls w1 @ es \<and> (\<forall>e\<in>set es. \<not> opensOrSeeks e)"
proof -
  obtain data err l' w2 where lr: "limited_Read l n w1 = ((data, err), l', w2)"
    by (metis prod.exhaust)
  from limited_Read_calls[of l n w1] lr
  obtain es where es: "calls w2 = calls w1 @ es" "\<forall>e\<in>set es. \<not> opensOrSeeks e" by auto
  show ?thesis
  proof (cases "err = Some EOF")
    case False
    with Read_ok_plain[OF ro lr] es show ?thesis by simp
  next
    case True
    show ?thesis
    proof (cases "file' d1")
      case None
      with Read_ok_eof_nil[OF ro _ None] lr True es show ?thesis by simp
    next
      case (Some h)
      have "calls (snd (snd (Read d n w))) = calls w1 @ (es @ [CloseFd h])"
        using Read_ok_eof[OF ro _ Some] lr True es file_Close_calls[of h w2] by simp
      moreover have "\<forall>e\<in>set (es @ [CloseFd h]). \<not> opensOrSeeks e" using es by simp
      ultimately show ?thesis by blast
    qed
  qed
qed

lemma Read_opened_calls:
  assumes "reader d \<noteq> None"
  shows "\<exists>es. calls (snd (snd (Read d n w))) = calls w @ es \<and> (\<forall>e\<in>set es. \<not> opensOrSeeks e)"
proof -
  from assms obtain l where "reader d = Some l" by auto
  then have "Read_open d w = (Inr (d, l), w)" by (simp add: Read_open_def)
  from Read_tail_calls[OF this] show ?thesis .
qed

lemma Read_first_calls:
  assumes "reader d = None"
  shows "\<exists>es. calls (snd (snd (Read d n w))) = calls w @ Open (path d) # es"
proof (cases "os_Open (path d) w")
  case (Pair r w0)
  have c0: "calls w0 = calls w @ [Open (path d)]" using os_Open_calls[of "path d" w] Pair by simp
  show ?thesis
  proof (cases r)
    case (Inl e)
    with Pair assms have "Read_open d w = (Inl e, w0)" by (simp add: Read_open_def)
    from Read_fail[OF this] c0 show ?thesis by simp
  next
    case (Inr h)
    obtain se w1 where sk: "file_Seek h (start d) w0 = (se, w1)" by (metis prod.exhaust)
    have c1: "calls w1 = calls w @ [Open (path d), Seek h (start d)]"
      using file_Seek_calls[of h "start d" w0] sk c0 by simp
    show ?thesis
    proof (cases se)
      case (Some e)
      with Pair Inr sk assms have "Read_open d w = (Inl e, w1)" by (simp add: Read_open_def)
      from Read_fail[OF this] c1 show ?thesis by simp
    next
      case None
      with Pair Inr sk assms
      have "Read_open d w =
        (Inr (d\<lparr>file' := Some h, reader := Some \<lparr>R = h, N = size' d\<rparr>\<rparr>, \<lparr>R = h, N = size' d\<rparr>), w1)"
        by (simp add: Read_open_def Let_def)
      from Read_tail_calls[OF this, of n] c1 show ?thesis by auto
    qed
  qed
qed

lemma no_Read_no_touch:
  "\<forall>x\<in>set ops. \<not> isRead x \<Longrightarrow> \<forall>d\<in>set ds. file' d = None \<Longrightarrow>
   snd (fold step ops (ds, w)) = w \<and> (\<forall>d\<in>set (fst (fold step ops (ds, w))). file' d = None)"
proof (induction ops arbitrary: ds)
  case Nil
  then show ?case by simp
next
  case (Cons x ops)
  have "\<exists>ds'. step x (ds, w) = (ds', w) \<and> (\<forall>d\<in>set ds'. file' d = None)"
  proof (cases x)
    case (New p s z)
    with Cons.prems show ?thesis by (auto simp add: newDeferredPartialReadCloser_def)
  next
    case (DoRead i n)
    with Cons.prems show ?thesis by simp
  next
    case (DoClose i)
    show ?thesis
    proof (cases "i < length ds")
      case False
      with DoClose Cons.prems show ?thesis by simp
    next
      case True
      with Cons.prems have "file' (ds ! i) = None" by simp
      then have "step x (ds, w) = (ds[i := ds ! i], w)"
        using DoClose True by (simp add: Close_nil)
      with Cons.prems show ?thesis by simp
    qed
  qed
  then obtain ds' where s: "step x (ds, w) = (ds', w)" "\<forall>d\<in>set ds'. file' d = None" by blast
  from Cons.IH[OF _ s(2)] Cons.prems(1) s(1) show ?case by simp
qed

lemma Read_first_seek_calls:
  assumes "reader d = None" "fault w (length (calls w)) = None" "disk w (path d) \<noteq> None"
  shows "\<exists>es. calls (snd (snd (Read d n w))) =
               calls w @ Open (path d) # Seek (length (files w)) (start d) # es"
proof -
  from assms obtain c where c: "disk w (path d) = Some c" by auto
  obtain w0 where op: "os_Open (path d) w = (Inr (length (files w)), w0)"
    using assms(2) c by (simp add: os_Open_def Let_def)
  have c0: "calls w0 = calls w @ [Open (path d)]"
    using os_Open_calls[of "path d" w] op by simp
  obtain se w1 where sk: "file_Seek (length (files w)) (start d) w0 = (se, w1)"
    by (metis prod.exhaust)
  have c1: "calls w1 = calls w @ [Open (path d), Seek (length (files w)) (start d)]"
    using file_Seek_calls[of "length (files w)" "start d" w0] sk c0 by simp
  show ?thesis
  proof (cases se)
    case (Some e)
    with op sk assms have "Read_open d w = (Inl e, w1)" by (simp add: Read_open_def)
    from Read_fail[OF this] c1 show ?thesis by simp
  next
    case None
    with op sk assms
    have "Read_open d w =
      (Inr (d\<lparr>file' := Some (length (files w)),
               reader := Some \<lparr>R = length (files w), N = size' d\<rparr>\<rparr>,
            \<lparr>R = length (files w), N = size' d\<rparr>), w1)"
      by (simp add: Read_open_def Let_def)
    from Read_tail_calls[OF this, of n] c1 show ?thesis by auto
  qed
qed

lemma Read_reader_after:
  assumes ro: "Read_open d w = (Inr (d1, l), w1)"
  shows "reader (fst (snd (Read d n w))) \<noteq> None"
proof -
  obtain data err l' w2 where lr: "limited_Read l n w1 = ((data, err), l', w2)"
    by (metis prod.exhaust)
  show ?thesis
  proof (cases "err = Some EOF")
    case False
    with Read_ok_plain[OF ro lr] show ?thesis by simp
  next
    case True
    show ?thesis
    proof (cases "file' d1")
      case None
      with Read_ok_eof_nil[OF ro _ None] lr True show ?thesis by simp
    next
      case (Some h)
      with Read_ok_eof[OF ro _ Some] lr True show ?thesis by simp
    qed
  qed
qed

lemma Read_opened_stays:
  assumes "reader d \<noteq> None"
  shows "reader (fst (snd (Read d n w))) \<noteq> None"
proof -
  from assms obtain l where "reader d = Some l" by auto
  then have "Read_open d w = (Inr (d, l), w)" by (simp add: Read_open_def)
  from Read_reader_after[OF this] show ?thesis .
qed

lemma Read_unopened_outcome:
  "reader (fst (snd (Read d n w))) \<noteq> None \<or>
   (fst (snd (Read d n w)) = d \<and> snd (fst (Read d n w)) \<noteq> None)"
proof (cases "Read_open d w")
  case (Pair r w1)
  show ?thesis
  proof (cases r)
    case (Inl e)
    with Pair Read_fail[of d w e w1 n] show ?thesis by simp
  next
    case (Inr p)
    obtain d1 l where "p = (d1, l)" by (cases p)
    with Pair Inr have "Read_open d w = (Inr (d1, l), w1)" by simp
    from Read_reader_after[OF this] show ?thesis by simp
  qed
qed

text \<open>
  Claim C7, as amended. A history with no \<open>Read\<close> in it, however many readers it creates
  and closes, leaves the world as it was: no call is made. The first \<open>Read\<close> of a new
  reader starts by opening its path, and seeks to \<open>start\<close> right after when the open
  succeeds. A \<open>Read\<close> on a reader that is open neither opens nor seeks, and leaves it
  open. A \<open>Read\<close> on a reader that is not open starts by opening its path, and either
  leaves the reader open or returns an error and leaves the reader as it was: so a
  \<open>Read\<close> other than the first opens the file only when the reads before it failed to
  open it, or when the reader was closed in between.
\<close>

theorem open_deferred_until_Read:
  "((\<forall>x\<in>set ops. \<not> isRead x) \<longrightarrow> snd (fold step ops ([], w)) = w) \<and>
   (\<exists>es. calls (snd (snd (Read (newDeferredPartialReadCloser p s z) n w))) = calls w @ Open p # es) \<and>
   (fault w (length (calls w)) = None \<and> disk w p \<noteq> None \<longrightarrow>
      (\<exists>es. calls (snd (snd (Read (newDeferredPartialReadCloser p s z) n w))) =
            calls w @ Open p # Seek (length (files w)) s # es)) \<and>
   (reader d \<noteq> None \<longrightarrow>
      (\<exists>es. calls (snd (snd (Read d n w))) = calls w @ es \<and> (\<forall>e\<in>set es. \<not> opensOrSeeks e)) \<and>
      reader (fst (snd (Read d n w))) \<noteq> None) \<and>
   (reader d = None \<longrightarrow>
      (\<exists>es. calls (snd (snd (Read d n w))) = calls w @ Open (path d) # es) \<and>
      (reader (fst (snd (Read d n w))) \<noteq> None \<or>
       (fst (snd (Read d n w)) = d \<and> snd (fst (Read d n w)) \<noteq> None)))"
proof -
  let ?d = "newDeferredPartialReadCloser p s z"
  have d: "reader ?d = None" "path ?d = p" "start ?d = s"
    by (simp_all add: newDeferredPartialReadCloser_def)
  have a: "(\<forall>x\<in>set ops. \<not> isRead x) \<longrightarrow> snd (fold step ops ([], w)) = w"
    using no_Read_no_touch[of ops "[]" w] by simp
  have b: "\<exists>es. calls (snd (snd (Read ?d n w))) = calls w @ Open p # es"
    using Read_first_calls[OF d(1), of n w] d(2) by simp
  have c: "fault w (length (calls w)) = None \<and> disk w p \<noteq> None \<longrightarrow>
      (\<exists>es. calls (snd (snd (Read ?d n w))) = calls w @ Open p # Seek (length (files w)) s # es)"
    using Read_first_seek_calls[OF d(1), of w n] d(2,3) by simp
  have e: "reader d \<noteq> None \<longrightarrow>
      (\<exists>es. calls (snd (snd (Read d n w))) = calls w @ es \<and> (\<forall>e\<in>set es. \<not> opensOrSeeks e)) \<and>
      reader (fst (snd (Read d n w))) \<noteq> None"
    using Read_opened_calls[of d n w] Read_opened_stays[of d n w] by blast
  have f: "reader d = None \<longrightarrow>
      (\<exists>es. calls (snd (snd (Read d n w))) = calls w @ Open (path d) # es) \<and>
      (reader (fst (snd (Read d n w))) \<noteq> None \<or>
       (fst (snd (Read d n w)) = d \<and> snd (fst (Read d n w)) \<noteq> None))"
    using Read_first_calls[of d n w] Read_unopened_outcome[of d n w] by blast
  from a b c e f show ?thesis by blast
qed

text \<open>
  Claim C7 as stated fails: when the first \<open>Read\<close> cannot open the file (the operating
  system answers "too many open files"), that call leaves the single call \<open>Open\<close>, and
  the file is opened and seeked during the second \<open>Read\<close>.
\<close>

theorem second_Read_opens_counterexample:
  "calls (snd (fold step [New ''/layer.tar'' 5 4, DoRead 0 2] ([], busyWorld))) =
     [Open ''/layer.tar''] \<and>
   calls (snd (fold step [New ''/layer.tar'' 5 4, DoRead 0 2, DoRead 0 2] ([], busyWorld))) =
     [Open ''/layer.tar'', Open ''/layer.tar'', Seek 0 5, ReadAt 0 2]"
  by (simp add: os_defs quietWorld_def busyWorld_def)

theorem open_deferred_until_Read_witness:
  "snd (fold step [New ''/layer.tar'' 5 4, New ''/layer.tar'' 9 3, DoClose 0, DoClose 0] ([], quietWorld))
     = quietWorld \<and>
   (\<exists>es. calls (snd (snd (Read (newDeferredPartialReadCloser ''/layer.tar'' 5 4) 2 quietWorld))) =
         Open ''/layer.tar'' # Seek 0 5 # es) \<and>
   reader openedReader \<noteq> None \<and>
   (\<exists>es. calls (snd (snd (Read openedReader 2 quietWorld))) = es \<and> (\<forall>e\<in>set es. \<not> opensOrSeeks e)) \<and>
   reader (fst (snd (Read openedReader 2 quietWorld))) \<noteq> None \<and>
   (\<exists>es. calls (snd (snd (Read (newDeferredPartialReadCloser ''/layer.tar'' 5 4) 2 busyWorld))) =
         Open ''/layer.tar'' # es)"
proof -
  have h1: "\<forall>x\<in>set [New ''/layer.tar'' 5 4, New ''/layer.tar'' 9 3, DoClose 0, DoClose 0]. \<not> isRead x"
    by simp
  have h2: "fault quietWorld (length (calls quietWorld)) = None \<and> disk quietWorld ''/layer.tar'' \<noteq> None"
    by (simp add: quietWorld_def)
  have h3: "reader openedReader \<noteq> None"
    by (simp add: openedReader_def os_defs quietWorld_def)
  have h4: "reader (newDeferredPartialReadCloser ''/layer.tar'' 5 4) = None"
      "path (newDeferredPartialReadCloser ''/layer.tar'' 5 4) = ''/layer.tar''"
    by (simp_all add: newDeferredPartialReadCloser_def)
  have c: "calls quietWorld = []" "files quietWorld = []" "calls busyWorld = []"
    by (simp_all add: quietWorld_def busyWorld_def)
  from open_deferred_until_Read[of
      "[New ''/layer.tar'' 5 4, New ''/layer.tar'' 9 3, DoClose 0, DoClose 0]" quietWorld
      "''/layer.tar''" 5 4 2 openedReader] h1 h2 h3 c
  have a: "snd (fold step [New ''/layer.tar'' 5 4, New ''/layer.tar'' 9 3, DoClose 0, DoClose 0] ([], quietWorld))
     = quietWorld \<and>
   (\<exists>es. calls (snd (snd (Read (newDeferredPartialReadCloser ''/layer.tar'' 5 4) 2 quietWorld))) =
         Open ''/layer.tar'' # Seek 0 5 # es) \<and>
   (\<exists>es. calls (snd (snd (Read openedReader 2 quietWorld))) = es \<and> (\<forall>e\<in>set es. \<not> opensOrSeeks e)) \<and>
   reader (fst (snd (Read openedReader 2 quietWorld))) \<noteq> None"
    by simp
  from open_deferred_until_Read[of "[]" busyWorld "''/layer.tar''" 5 4 2
      "newDeferredPartialReadCloser ''/layer.tar'' 5 4"] h4 c
  have b: "\<exists>es. calls (snd (snd (Read (newDeferredPartialReadCloser ''/layer.tar'' 5 4) 2 busyWorld))) =
         Open ''/layer.tar'' # es"
    by simp
  from a b h3 show ?thesis by blast
qed

lemma Read_eof_step:
  assumes "reader d = Some l" and "file' d = Some h" and "R l = h"
      and "h < length (files w)" and "\<not> closed (files w ! h)"
      and "N l \<le> 0 \<or>
           (0 < n \<and> fault w (length (calls w)) = None \<and>
            int (length (contents (files w ! h))) \<le> offset (files w ! h))"
      and "Read d n w = ((data, err), d', w')"
      and "k = (if N l \<le> 0 then length (calls w) else Suc (length (calls w)))"
  shows "data = [] \<and>
         err = (if fault w k = Some ErrClosed then Some EOF else fault w k) \<and>
         (fault w k = None \<longrightarrow> err = None) \<and>
         (\<forall>m. fst (Read d' m w') = ([], Some (if N l \<le> 0 then EOF else ErrClosed)))"
proof (cases "N l \<le> 0")
  case True
  have ro: "Read_open d w = (Inr (d, l), w)" using assms(1) by (simp add: Read_open_def)
  have lr: "limited_Read l n w = (([], Some EOF), l, w)" using True by (rule limited_Read_exhausted)
  have rd: "Read d n w = (([], if fst (file_Close h w) \<noteq> Some ErrClosed then fst (file_Close h w) else Some EOF),
              d\<lparr>reader := Some l\<rparr>, snd (file_Close h w))"
    using Read_ok_eof[OF ro lr assms(2)] .
  have fc: "fst (file_Close h w) = fault w (length (calls w))"
       "closed (files (snd (file_Close h w)) ! h)" "length (files (snd (file_Close h w))) = length (files w)"
    using assms(4,5) by (simp_all add: file_Close_def Let_def)
  from rd assms(7) have res: "data = []" "d' = d\<lparr>reader := Some l\<rparr>" "w' = snd (file_Close h w)"
      "err = (if fst (file_Close h w) \<noteq> Some ErrClosed then fst (file_Close h w) else Some EOF)"
    by simp_all
  have next_read: "fst (Read d' m w') = ([], Some EOF)" for m
  proof -
    have ro': "Read_open d' w' = (Inr (d', l), w')" using res(2) by (simp add: Read_open_def)
    have lr': "limited_Read l m w' = (([], Some EOF), l, w')" using True by (rule limited_Read_exhausted)
    have f': "file' d' = Some h" using res(2) assms(2) by simp
    have "fst (file_Close h w') = Some ErrClosed"
      using fc res(3) assms(4) by (simp add: file_Close_def Let_def)
    with Read_ok_eof[OF ro' lr' f'] show ?thesis by simp
  qed
  from res fc True assms(8) next_read show ?thesis by auto
next
  case False
  with assms(6) have eof: "0 < n" "fault w (length (calls w)) = None"
      "int (length (contents (files w ! h))) \<le> offset (files w ! h)" by auto
  let ?m = "if N l < int n then nat (N l) else n"
  have m: "?m \<noteq> 0" using False eof(1) by auto
  let ?w1 = "w\<lparr>calls := calls w @ [ReadAt h ?m]\<rparr>"
  have fr: "file_Read h ?m w = (([], Some EOF), ?w1)"
    using assms(4,5) eof m by (simp add: file_Read_def Let_def)
  have ro: "Read_open d w = (Inr (d, l), w)" using assms(1) by (simp add: Read_open_def)
  have lr: "limited_Read l n w = (([], Some EOF), l\<lparr>N := N l\<rparr>, ?w1)"
    using False fr assms(3) by (simp add: limited_Read_pos)
  have rd: "Read d n w = (([], if fst (file_Close h ?w1) \<noteq> Some ErrClosed then fst (file_Close h ?w1) else Some EOF),
              d\<lparr>reader := Some (l\<lparr>N := N l\<rparr>)\<rparr>, snd (file_Close h ?w1))"
    using Read_ok_eof[OF ro lr assms(2)] .
  have fc: "fst (file_Close h ?w1) = fault w (Suc (length (calls w)))"
       "closed (files (snd (file_Close h ?w1)) ! h)" "length (files (snd (file_Close h ?w1))) = length (files w)"
    using assms(4,5) by (simp_all add: file_Close_def Let_def)
  from rd assms(7) have res: "data = []" "d' = d\<lparr>reader := Some (l\<lparr>N := N l\<rparr>)\<rparr>" "w' = snd (file_Close h ?w1)"
      "err = (if fst (file_Close h ?w1) \<noteq> Some ErrClosed then fst (file_Close h ?w1) else Some EOF)"
    by simp_all
  have next_read: "fst (Read d' m w') = ([], Some ErrClosed)" for m
  proof -
    have ro': "Read_open d' w' = (Inr (d', l), w')" using res(2) by (simp add: Read_open_def)
    have fr': "file_Read h j w' = (([], Some ErrClosed), w'\<lparr>calls := calls w' @ [ReadAt h j]\<rparr>)" for j
      using fc res(3) assms(4) by (simp add: file_Read_def Let_def)
    have "fst (limited_Read l m w') = ([], Some ErrClosed)"
      using False assms(3) by (simp add: limited_Read_pos fr')
    then obtain l2 w2 where lr': "limited_Read l m w' = (([], Some ErrClosed), l2, w2)"
      by (metis prod.collapse)
    from Read_ok_plain[OF ro' lr'] show ?thesis by simp
  qed
  from res fc False assms(8) next_read show ?thesis by auto
qed

text \<open>
  Claim C10. Let the reader be open and let the limited reader answer \<open>io.EOF\<close> on this
  call: its count \<open>N\<close> is used up, or the file is at its end. Then \<open>Read\<close> returns no
  bytes and, in place of \<open>io.EOF\<close>, the result of closing the file (call number \<open>k\<close>):
  nil when the close succeeds. Every later \<open>Read\<close> returns \<open>io.EOF\<close> when \<open>N\<close> was
  used up, and "file already closed" when bytes of the range were still missing.
\<close>

theorem Read_at_end_of_range:
  assumes "reader d = Some l" and "file' d = Some h" and "R l = h"
      and "h < length (files w)" and "\<not> closed (files w ! h)"
      and "N l \<le> 0 \<or>
           (0 < n \<and> fault w (length (calls w)) = None \<and>
            int (length (contents (files w ! h))) \<le> offset (files w ! h))"
      and "Read d n w = ((data, err), d', w')"
      and "k = (if N l \<le> 0 then length (calls w) else Suc (length (calls w)))"
  shows "data = [] \<and>
         err = (if fault w k = Some ErrClosed then Some EOF else fault w k) \<and>
         (fault w k = None \<longrightarrow> err = None) \<and>
         (\<forall>m. fst (Read d' m w') = ([], Some (if N l \<le> 0 then EOF else ErrClosed)))"
  using assms by (rule Read_eof_step)

theorem Read_at_end_of_range_witness:
  "fst (Read drainedReader 8 drainedWorld) = ([], None) \<and>
   fst (Read (fst (snd (Read drainedReader 8 drainedWorld))) 8
             (snd (snd (Read drainedReader 8 drainedWorld)))) = ([], Some ErrClosed) \<and>
   fst (Read consumedReader 8 consumedWorld) = ([], None) \<and>
   fst (Read (fst (snd (Read consumedReader 8 consumedWorld))) 8
             (snd (snd (Read consumedReader 8 consumedWorld)))) = ([], Some EOF)"
proof -
  let ?r = "Read drainedReader 8 drainedWorld"
  have st: "reader drainedReader = Some \<lparr>R = 0, N = 6\<rparr>" "file' drainedReader = Some 0"
    by (simp_all add: drainedReader_def os_defs quietWorld_def)
  have w: "0 < length (files drainedWorld)" "\<not> closed (files drainedWorld ! 0)"
      "fault drainedWorld (length (calls drainedWorld)) = None"
      "fault drainedWorld (Suc (length (calls drainedWorld))) = None"
      "int (length (contents (files drainedWorld ! 0))) \<le> offset (files drainedWorld ! 0)"
    by (simp_all add: drainedWorld_def os_defs quietWorld_def)
  have eof: "N \<lparr>R = 0, N = 6\<rparr> \<le> 0 \<or>
           (0 < (8::nat) \<and> fault drainedWorld (length (calls drainedWorld)) = None \<and>
            int (length (contents (files drainedWorld ! 0))) \<le> offset (files drainedWorld ! 0))"
    using w by simp
  have rd: "?r = ((fst (fst ?r), snd (fst ?r)), fst (snd ?r), snd (snd ?r))" by simp
  from Read_at_end_of_range[OF st(1) st(2) _ w(1) w(2) eof rd refl] w(4)
  have a: "fst ?r = ([], None) \<and>
     fst (Read (fst (snd ?r)) 8 (snd (snd ?r))) = ([], Some ErrClosed)"
    by (simp add: prod_eq_iff)
  let ?q = "Read consumedReader 8 consumedWorld"
  have st': "reader consumedReader = Some \<lparr>R = 0, N = 0\<rparr>" "file' consumedReader = Some 0"
    by (simp_all add: consumedReader_def os_defs quietWorld_def)
  have w': "0 < length (files consumedWorld)" "\<not> closed (files consumedWorld ! 0)"
      "fault consumedWorld (length (calls consumedWorld)) = None"
    by (simp_all add: consumedWorld_def os_defs quietWorld_def)
  have eof': "N \<lparr>R = 0, N = 0\<rparr> \<le> 0 \<or>
           (0 < (8::nat) \<and> fault consumedWorld (length (calls consumedWorld)) = None \<and>
            int (length (contents (files consumedWorld ! 0))) \<le> offset (files consumedWorld ! 0))"
    by simp
  have rq: "?q = ((fst (fst ?q), snd (fst ?q)), fst (snd ?q), snd (snd ?q))" by simp
  from Read_at_end_of_range[OF st'(1) st'(2) _ w'(1) w'(2) eof' rq refl] w'(3)
  have b: "fst ?q = ([], None) \<and>
     fst (Read (fst (snd ?q)) 8 (snd (snd ?q))) = ([], Some EOF)"
    by (simp add: prod_eq_iff)
  from a b show ?thesis by simp
qed

lemma file_Read_length: "length (fst (fst (file_Read h k w))) \<le> k"
  by (simp add: file_Read_def Let_def split: option.splits)

lemma limited_Read_budget:
  "int (length (fst (fst (limited_Read l n w)))) + max 0 (N (fst (snd (limited_Read l n w)))) \<le> max 0 (N l)"
proof (cases "N l \<le> 0")
  case True
  then show ?thesis by (simp add: limited_Read_exhausted)
next
  case False
  let ?k = "if N l < int n then nat (N l) else n"
  have "int (length (fst (fst (file_Read (R l) ?k w)))) \<le> int ?k"
    using file_Read_length[of "R l" ?k w] by linarith
  moreover have "int ?k \<le> N l" using False by auto
  ultimately show ?thesis using False by (simp add: limited_Read_pos)
qed

lemma Read_open_budget:
  "Read_open d w = (Inr (d1, l), w1) \<Longrightarrow> N l = budget d \<and> size' d1 = size' d"
  by (auto simp add: Read_open_def budget_def Let_def split: option.splits prod.splits sum.splits)

lemma Read_result_reader:
  assumes ro: "Read_open d w = (Inr (d1, l), w1)"
  shows "fst (fst (Read d n w)) = fst (fst (limited_Read l n w1)) \<and>
         fst (snd (Read d n w)) = d1\<lparr>reader := Some (fst (snd (limited_Read l n w1)))\<rparr>"
proof -
  obtain data err l' w2 where lr: "limited_Read l n w1 = ((data, err), l', w2)"
    by (metis prod.exhaust)
  show ?thesis
  proof (cases "err = Some EOF")
    case False
    with Read_ok_plain[OF ro lr] lr show ?thesis by simp
  next
    case True
    show ?thesis
    proof (cases "file' d1")
      case None
      with Read_ok_eof_nil[OF ro _ None] lr True show ?thesis by simp
    next
      case (Some h)
      with Read_ok_eof[OF ro _ Some] lr True show ?thesis by simp
    qed
  qed
qed

lemma Read_budget:
  "int (length (fst (fst (Read d n w)))) + max 0 (budget (fst (snd (Read d n w)))) \<le> max 0 (budget d)"
proof (cases "Read_open d w")
  case (Pair ro w1)
  show ?thesis
  proof (cases ro)
    case (Inl e)
    with Pair Read_fail[of d w e w1 n] show ?thesis by simp
  next
    case (Inr p)
    obtain d1 l where p: "p = (d1, l)" by (cases p)
    have ro: "Read_open d w = (Inr (d1, l), w1)" using Pair Inr p by simp
    from Read_result_reader[OF ro, of n] Read_open_budget[OF ro] limited_Read_budget[of l n w1]
    show ?thesis by (simp add: budget_def)
  qed
qed

lemma reads_budget:
  "int (length (fst (reads ns d w))) \<le> max 0 (budget d)"
proof (induction ns arbitrary: d w)
  case Nil
  then show ?case by simp
next
  case (Cons n ns)
  let ?r = "Read d n w"
  let ?d' = "fst (snd ?r)" and ?w' = "snd (snd ?r)"
  have "fst (reads (n # ns) d w) = fst (fst ?r) @ fst (reads ns ?d' ?w')"
    by (simp add: split_beta)
  moreover have "int (length (fst (reads ns ?d' ?w'))) \<le> max 0 (budget ?d')" by (rule Cons.IH)
  ultimately show ?case using Read_budget[of d n w] by simp
qed

lemma Read_in_range:
  assumes "reader d = Some l" and "file' d = Some h" and "R l = h"
      and "h < length (files w)" and "\<not> closed (files w ! h)"
      and "fault w (length (calls w)) = None" and "0 < n" and "0 < N l"
      and "0 \<le> offset (files w ! h)"
      and "offset (files w ! h) < int (length (contents (files w ! h)))"
      and "k = (if N l < int n then nat (N l) else n)"
      and "data = take k (drop (nat (offset (files w ! h))) (contents (files w ! h)))"
  shows "Read d n w =
     ((data, None),
      d\<lparr>reader := Some (l\<lparr>N := N l - int (length data)\<rparr>)\<rparr>,
      w\<lparr>calls := calls w @ [ReadAt h k],
        files := (files w)[h := (files w ! h)\<lparr>offset := offset (files w ! h) + int (length data)\<rparr>]\<rparr>)"
proof -
  have k: "k \<noteq> 0" using assms(7,8,11) by auto
  have ro: "Read_open d w = (Inr (d, l), w)" using assms(1) by (simp add: Read_open_def)
  have fr: "file_Read h k w = ((data, None),
      w\<lparr>calls := calls w @ [ReadAt h k],
        files := (files w)[h := (files w ! h)\<lparr>offset := offset (files w ! h) + int (length data)\<rparr>]\<rparr>)"
    using assms(4,5,6,9,10,12) k by (simp add: file_Read_def Let_def)
  have lr: "limited_Read l n w = ((data, None), l\<lparr>N := N l - int (length data)\<rparr>,
      w\<lparr>calls := calls w @ [ReadAt h k],
        files := (files w)[h := (files w ! h)\<lparr>offset := offset (files w ! h) + int (length data)\<rparr>]\<rparr>)"
    using assms(3,8) fr unfolding assms(11) by (simp add: limited_Read_pos)
  from Read_ok_plain[OF ro lr] show ?thesis by simp
qed

lemma readAll_opened:
  assumes "reader d = Some l" and "file' d = Some h" and "R l = h"
      and "h < length (files w)" and "\<not> closed (files w ! h)"
      and "\<forall>k. fault w k = None" and "0 < n"
      and "0 \<le> offset (files w ! h)"
      and "r = nat (min (N l) (int (length (contents (files w ! h))) - offset (files w ! h)))"
      and "r + 2 \<le> fuel"
  shows "\<exists>d' w'. readAll fuel n d w acc =
           Some (acc @ take r (drop (nat (offset (files w ! h))) (contents (files w ! h))),
                 if N l \<le> max 0 (int (length (contents (files w ! h))) - offset (files w ! h))
                 then None else Some ErrClosed, d', w')"
  using assms
proof (induction r arbitrary: d l w acc fuel rule: less_induct)
  case (less r)
  let ?f = "files w ! h"
  let ?c = "contents ?f" and ?off = "offset ?f"
  obtain fuel1 where fuel: "fuel = Suc fuel1" "r + 1 \<le> fuel1"
    using less.prems(10) by (cases fuel) auto
  show ?case
  proof (cases "N l \<le> 0 \<or> int (length ?c) \<le> ?off")
    case True
    then have r0: "r = 0" using less.prems(9) by auto
    obtain fuel2 where fuel2: "fuel1 = Suc fuel2" using fuel(2) by (cases fuel1) auto
    have eof: "N l \<le> 0 \<or>
           (0 < n \<and> fault w (length (calls w)) = None \<and> int (length ?c) \<le> ?off)"
      using True less.prems(6,7) by auto
    obtain data err d1 w1 where rd: "Read d n w = ((data, err), d1, w1)"
      by (metis prod.exhaust)
    have step: "data = [] \<and> err = None \<and>
         (\<forall>m. fst (Read d1 m w1) = ([], Some (if N l \<le> 0 then EOF else ErrClosed)))"
      using Read_eof_step[OF less.prems(1-5) eof rd refl] less.prems(6) by simp
    obtain d2 w2 where rd2: "Read d1 n w1 = (([], Some (if N l \<le> 0 then EOF else ErrClosed)), d2, w2)"
      using step by (metis fst_conv prod.exhaust)
    have cond: "(N l \<le> max 0 (int (length ?c) - ?off)) = (N l \<le> 0)"
      using True by auto
    show ?thesis
      using rd step rd2 fuel fuel2 r0 cond by simp
  next
    case False
    then have pos: "0 < N l" "?off < int (length ?c)" by auto
    define k where "k = (if N l < int n then nat (N l) else n)"
    define data where "data = take k (drop (nat ?off) ?c)"
    let ?l1 = "l\<lparr>N := N l - int (length data)\<rparr>"
    let ?d1 = "d\<lparr>reader := Some ?l1\<rparr>"
    let ?w1 = "w\<lparr>calls := calls w @ [ReadAt h k],
        files := (files w)[h := ?f\<lparr>offset := ?off + int (length data)\<rparr>]\<rparr>"
    have rd: "Read d n w = ((data, None), ?d1, ?w1)"
      using Read_in_range[OF less.prems(1-5) _ less.prems(7) pos(1) less.prems(8) pos(2) k_def data_def]
        less.prems(6) by simp
    obtain o' where o': "?off = int o'" using less.prems(8) by (metis nat_0_le)
    obtain m where m: "N l = int m" using pos(1) by (metis nat_0_le less_imp_le)
    have kpos: "0 < k" using pos(1) less.prems(7) by (auto simp add: k_def)
    have kval: "k = min m n" using m by (auto simp add: k_def)
    have len: "length data = min k (length ?c - o')" using o' by (simp add: data_def)
    have rval: "r = min m (length ?c - o')"
      using less.prems(9) o' m pos(2) by (simp add: min_def) linarith
    have lenpos: "0 < length data" using len kpos pos(2) o' by auto
    have lenr: "length data \<le> r"
      using len kval rval by auto
    have f1: "files ?w1 ! h = ?f\<lparr>offset := ?off + int (length data)\<rparr>"
      using less.prems(4) by simp
    have r1: "r - length data =
        nat (min (N ?l1) (int (length (contents (files ?w1 ! h))) - offset (files ?w1 ! h)))"
      using f1 rval lenr o' m pos(2) len by (simp add: min_def) linarith
    have ih: "\<exists>d' w'. readAll fuel1 n ?d1 ?w1 (acc @ data) =
           Some ((acc @ data) @ take (r - length data)
                   (drop (nat (offset (files ?w1 ! h))) (contents (files ?w1 ! h))),
                 if N ?l1 \<le> max 0 (int (length (contents (files ?w1 ! h))) - offset (files ?w1 ! h))
                 then None else Some ErrClosed, d', w')"
    proof (rule less.IH[OF _ _ _ _ _ _ _ less.prems(7) _ r1])
      show "r - length data < r" using lenpos lenr by linarith
      show "reader ?d1 = Some ?l1" by simp
      show "file' ?d1 = Some h" using less.prems(2) by simp
      show "R ?l1 = h" using less.prems(3) by simp
      show "h < length (files ?w1)" using less.prems(4) by simp
      show "\<not> closed (files ?w1 ! h)" using f1 less.prems(5) by simp
      show "\<forall>k. fault ?w1 k = None" using less.prems(6) by simp
      show "0 \<le> offset (files ?w1 ! h)" using f1 less.prems(8) by simp
      show "r - length data + 2 \<le> fuel1" using fuel(2) lenpos lenr by linarith
    qed
    have off1: "nat (offset (files ?w1 ! h)) = nat ?off + length data"
      using f1 less.prems(8) by (simp add: nat_add_distrib)
    have data_take: "data = take (length data) (drop (nat ?off) ?c)"
      unfolding data_def by (metis append_eq_conv_conj append_take_drop_id)
    have cat: "data @ take (r - length data) (drop (nat ?off + length data) ?c) =
               take r (drop (nat ?off) ?c)"
    proof -
      have "take r (drop (nat ?off) ?c) =
            take (length data + (r - length data)) (drop (nat ?off) ?c)" using lenr by simp
      also have "\<dots> = take (length data) (drop (nat ?off) ?c) @
            take (r - length data) (drop (length data) (drop (nat ?off) ?c))"
        by (rule take_add)
      finally show ?thesis using data_take by (simp add: add.commute)
    qed
    have cond: "(N ?l1 \<le> max 0 (int (length (contents (files ?w1 ! h))) - offset (files ?w1 ! h)))
        = (N l \<le> max 0 (int (length ?c) - ?off))"
      using f1 len kval lenr rval o' m pos(2) by (simp add: min_def max_def) linarith
    from ih obtain d' w' where
      "readAll fuel1 n ?d1 ?w1 (acc @ data) =
           Some (acc @ take r (drop (nat ?off) ?c),
                 if N l \<le> max 0 (int (length ?c) - ?off) then None else Some ErrClosed, d', w')"
      using f1 off1 cat cond by auto
    then show ?thesis using rd fuel(1) by simp
  qed
qed

lemma Read_after_open:
  assumes "Read_open d w = (Inr (d1, l), w1)" and "reader d1 = Some l"
  shows "Read d n w = Read d1 n w1"
proof -
  have "Read_open d1 w1 = (Inr (d1, l), w1)" using assms(2) by (simp add: Read_open_def)
  with assms(1) show ?thesis by (simp add: Read_def)
qed

lemma Read_open_fresh:
  assumes "reader d = None" and "\<forall>k. fault w k = None"
      and "disk w (path d) = Some c" and "0 \<le> start d"
  shows "Read_open d w =
     (Inr (d\<lparr>file' := Some (length (files w)),
              reader := Some \<lparr>R = length (files w), N = size' d\<rparr>\<rparr>,
           \<lparr>R = length (files w), N = size' d\<rparr>),
      w\<lparr>calls := calls w @ [Open (path d), Seek (length (files w)) (start d)],
        files := files w @ [\<lparr>contents = c, offset = start d, closed = False\<rparr>]\<rparr>)"
  using assms by (simp add: Read_open_def os_Open_def file_Seek_def Let_def)

lemma readAll_fresh:
  assumes nf: "\<forall>k. fault w k = None" and disk: "disk w p = Some c"
      and s: "0 \<le> s" and z: "0 \<le> z" and n: "0 < n"
      and fuel: "nat (min z (max 0 (int (length c) - s))) + 2 \<le> fuel"
  shows "\<exists>d' w'. readAll fuel n (newDeferredPartialReadCloser p s z) w [] =
           Some (take (nat z) (drop (nat s) c),
                 if z \<le> max 0 (int (length c) - s) then None else Some ErrClosed, d', w')"
proof -
  let ?d = "newDeferredPartialReadCloser p s z"
  let ?h = "length (files w)"
  let ?l = "\<lparr>R = ?h, N = z\<rparr>"
  let ?d1 = "?d\<lparr>file' := Some ?h, reader := Some ?l\<rparr>"
  let ?w1 = "w\<lparr>calls := calls w @ [Open p, Seek ?h s],
        files := files w @ [\<lparr>contents = c, offset = s, closed = False\<rparr>]\<rparr>"
  have d: "reader ?d = None" "path ?d = p" "start ?d = s" "size' ?d = z"
    by (simp_all add: newDeferredPartialReadCloser_def)
  have ro: "Read_open ?d w = (Inr (?d1, ?l), ?w1)"
    using Read_open_fresh[of ?d w c] nf disk s d by simp
  have same: "Read ?d n w = Read ?d1 n ?w1"
    by (rule Read_after_open[OF ro]) simp
  obtain fuel1 where f1: "fuel = Suc fuel1" using fuel by (cases fuel) auto
  have eq: "readAll fuel n ?d w [] = readAll fuel n ?d1 ?w1 []"
    using same f1 by simp
  have fh: "files ?w1 ! ?h = \<lparr>contents = c, offset = s, closed = False\<rparr>" by simp
  define r where "r = nat (min z (int (length c) - s))"
  have rfuel: "r + 2 \<le> fuel" using fuel by (simp add: r_def max_def min_def split: if_splits)
  have "\<exists>d' w'. readAll fuel n ?d1 ?w1 [] =
           Some ([] @ take r (drop (nat (offset (files ?w1 ! ?h))) (contents (files ?w1 ! ?h))),
                 if N ?l \<le> max 0 (int (length (contents (files ?w1 ! ?h))) - offset (files ?w1 ! ?h))
                 then None else Some ErrClosed, d', w')"
  proof (rule readAll_opened[OF _ _ _ _ _ _ n _ _ rfuel])
    show "reader ?d1 = Some ?l" by simp
    show "file' ?d1 = Some ?h" by simp
    show "R ?l = ?h" by simp
    show "?h < length (files ?w1)" by simp
    show "\<not> closed (files ?w1 ! ?h)" by simp
    show "\<forall>k. fault ?w1 k = None" using nf by simp
    show "0 \<le> offset (files ?w1 ! ?h)" using s by simp
    show "r = nat (min (N ?l) (int (length (contents (files ?w1 ! ?h))) - offset (files ?w1 ! ?h)))"
      by (simp add: r_def)
  qed
  then obtain d' w' where res: "readAll fuel n ?d1 ?w1 [] =
      Some (take r (drop (nat s) c), if z \<le> max 0 (int (length c) - s) then None else Some ErrClosed, d', w')"
    by auto
  have "take r (drop (nat s) c) = take (nat z) (drop (nat s) c)"
  proof (cases "z \<le> int (length c) - s")
    case True
    then show ?thesis by (simp add: r_def min_def)
  next
    case False
    then have "length (drop (nat s) c) \<le> r" "length (drop (nat s) c) \<le> nat z"
      using s z by (auto simp add: r_def min_def)
    then show ?thesis by simp
  qed
  with res eq show ?thesis by auto
qed

lemma length_take_range:
  "0 \<le> s \<Longrightarrow> 0 \<le> z \<Longrightarrow>
   int (length (take (nat z) (drop (nat s) c))) = min z (max 0 (int (length c) - s))"
  by (auto simp add: min_def max_def)

text \<open>
  Claim C8. Whatever the buffers of a sequence of \<open>Read\<close> calls on a new reader and
  whatever the operating system answers, the bytes returned in total never exceed
  \<open>size\<close> (for a range, \<open>0 \<le> size\<close>). When no call fails, the file holds \<open>c\<close> and
  the range is \<open>[start, start + size)\<close> with \<open>0 \<le> start\<close> and \<open>0 \<le> size\<close>, reading with
  a non-empty buffer until \<open>Read\<close> answers an error ends within
  \<open>min(size, max(0, L - start)) + 2\<close> calls and returns exactly the bytes of \<open>c\<close> in the
  range, \<open>min(size, max(0, L - start))\<close> of them.
\<close>

theorem total_bytes_read:
  "int (length (fst (reads ns (newDeferredPartialReadCloser p s z) w))) \<le> max 0 z \<and>
   ((\<forall>k. fault w k = None) \<and> disk w p = Some c \<and> 0 \<le> s \<and> 0 \<le> z \<and> 0 < n \<and>
     nat (min z (max 0 (int (length c) - s))) + 2 \<le> fuel \<longrightarrow>
     (\<exists>data e d' w'.
        readAll fuel n (newDeferredPartialReadCloser p s z) w [] = Some (data, e, d', w') \<and>
        data = take (nat z) (drop (nat s) c) \<and>
        int (length data) = min z (max 0 (int (length c) - s)) \<and>
        e = (if z \<le> max 0 (int (length c) - s) then None else Some ErrClosed)))"
proof -
  have a: "int (length (fst (reads ns (newDeferredPartialReadCloser p s z) w))) \<le> max 0 z"
    using reads_budget[of ns "newDeferredPartialReadCloser p s z" w]
    by (simp add: budget_def newDeferredPartialReadCloser_def)
  have b: "(\<forall>k. fault w k = None) \<and> disk w p = Some c \<and> 0 \<le> s \<and> 0 \<le> z \<and> 0 < n \<and>
     nat (min z (max 0 (int (length c) - s))) + 2 \<le> fuel \<longrightarrow>
     (\<exists>data e d' w'.
        readAll fuel n (newDeferredPartialReadCloser p s z) w [] = Some (data, e, d', w') \<and>
        data = take (nat z) (drop (nat s) c) \<and>
        int (length data) = min z (max 0 (int (length c) - s)) \<and>
        e = (if z \<le> max 0 (int (length c) - s) then None else Some ErrClosed))"
  proof (intro impI)
    assume h: "(\<forall>k. fault w k = None) \<and> disk w p = Some c \<and> 0 \<le> s \<and> 0 \<le> z \<and> 0 < n \<and>
     nat (min z (max 0 (int (length c) - s))) + 2 \<le> fuel"
    then obtain d' w' where "readAll fuel n (newDeferredPartialReadCloser p s z) w [] =
           Some (take (nat z) (drop (nat s) c),
                 if z \<le> max 0 (int (length c) - s) then None else Some ErrClosed, d', w')"
      using readAll_fresh[of w p c s z n fuel] by blast
    moreover have "int (length (take (nat z) (drop (nat s) c))) = min z (max 0 (int (length c) - s))"
      using h length_take_range by blast
    ultimately show "\<exists>data e d' w'.
        readAll fuel n (newDeferredPartialReadCloser p s z) w [] = Some (data, e, d', w') \<and>
        data = take (nat z) (drop (nat s) c) \<and>
        int (length data) = min z (max 0 (int (length c) - s)) \<and>
        e = (if z \<le> max 0 (int (length c) - s) then None else Some ErrClosed)"
      by blast
  qed
  from a b show ?thesis by blast
qed

theorem total_bytes_read_witness:
  "(\<exists>d' w'. readAll 6 3 (newDeferredPartialReadCloser ''/layer.tar'' 5 4) quietWorld [] =
      Some (''file'', None, d', w')) \<and>
   (\<exists>d' w'. readAll 9 3 (newDeferredPartialReadCloser ''/layer.tar'' 18 10) quietWorld [] =
      Some (''ents'', Some ErrClosed, d', w'))"
proof -
  have h: "(\<forall>k. fault quietWorld k = None) \<and>
           disk quietWorld ''/layer.tar'' = Some ''this file has contents''"
    by (simp add: quietWorld_def)
  have h1: "(0::int) \<le> 5 \<and> (0::int) \<le> 4 \<and> (0::nat) < 3 \<and>
     nat (min 4 (max 0 (int (length ''this file has contents'') - 5))) + 2 \<le> 6"
    by simp
  have h2: "(0::int) \<le> 18 \<and> (0::int) \<le> 10 \<and> (0::nat) < 3 \<and>
     nat (min 10 (max 0 (int (length ''this file has contents'') - 18))) + 2 \<le> 9"
    by simp
  from total_bytes_read[of "[]" "''/layer.tar''" 5 4 quietWorld "''this file has contents''" 3 6] h h1
  have a: "\<exists>d' w'. readAll 6 3 (newDeferredPartialReadCloser ''/layer.tar'' 5 4) quietWorld [] =
      Some (''file'', None, d', w')"
    by simp
  from total_bytes_read[of "[]" "''/layer.tar''" 18 10 quietWorld "''this file has contents''" 3 9] h h2
  have b: "\<exists>d' w'. readAll 9 3 (newDeferredPartialReadCloser ''/layer.tar'' 18 10) quietWorld [] =
      Some (''ents'', Some ErrClosed, d', w')"
    by simp
  from a b show ?thesis by blast
qed

section \<open>The content helpers: proofs\<close>

text \<open>
  Claim C5. When \<open>ft.File\<close> returns an error, \<open>fetchFileContentsByPath\<close> returns that
  very error and no reader; when it reports no node for the path (\<open>exists = false\<close>, nil
  reference, nil error) the helper returns the path-not-found error and no reader. The
  catalog is called in neither case.
\<close>

theorem fetchFileContentsByPath_errors:
  "(ftFile p = (exists, fileReference, Some err) \<longrightarrow>
      fetchFileContentsByPath ftFile cat p = (Failure err, [])) \<and>
   (ftFile p = (False, None, None) \<longrightarrow>
      fetchFileContentsByPath ftFile cat p = (Failure (PathNotFound p), []))"
  by (simp add: fetchFileContentsByPath_def)

theorem fetchFileContentsByPath_errors_witness:
  "fetchFileContentsByPath demoFile demoCatalog [''loop''] = (Failure SymlinkCycleOrDepthExceeded, []) \<and>
   fetchFileContentsByPath demoFile demoCatalog [''missing''] = (Failure (PathNotFound [''missing'']), [])"
proof -
  have a: "demoFile [''loop''] = (False, None, Some SymlinkCycleOrDepthExceeded)"
    by (simp add: demoFile_def)
  have b: "demoFile [''missing''] = (False, None, None)"
    by (simp add: demoFile_def)
  from fetchFileContentsByPath_errors[of demoFile "[''loop'']" False None SymlinkCycleOrDepthExceeded demoCatalog] a
       fetchFileContentsByPath_errors[of demoFile "[''missing'']" False None SymlinkCycleOrDepthExceeded demoCatalog] b
  show ?thesis by simp
qed

lemma resolvePaths_all:
  "\<forall>p\<in>set ps. resolved ftFile p \<noteq> None \<Longrightarrow>
   resolvePaths ftFile ps = Return (map (\<lambda>p. the (resolved ftFile p)) ps)"
  by (induction ps) (auto simp add: resolved_def split: prod.splits option.splits)

lemma resolvePaths_first_failure:
  "\<forall>q\<in>set qs. resolved ftFile q \<noteq> None \<Longrightarrow> pathError ftFile p = Some e \<Longrightarrow>
   resolvePaths ftFile (qs @ p # rest) = Failure e"
proof (induction qs)
  case Nil
  then show ?case by (auto simp add: pathError_def split: prod.splits option.splits if_splits)
next
  case (Cons q qs)
  then show ?case by (auto simp add: resolved_def split: prod.splits option.splits)
qed

lemma MultipleFileContents_first_unregistered:
  "\<forall>x\<in>set rs1. cat x \<noteq> None \<Longrightarrow> cat r = None \<Longrightarrow>
   MultipleFileContents cat (rs1 @ r # rs2) = Inl (UnregisteredReference r)"
  by (induction rs1) (auto simp add: FileContents_def split: option.splits sum.splits)

lemma MultipleFileContents_all:
  "\<forall>x\<in>set rs. cat x \<noteq> None \<Longrightarrow>
   \<exists>m. MultipleFileContents cat rs = Inr m \<and> dom m = set rs \<and>
       (\<forall>x\<in>set rs. m x = Some (readerFor (the (cat x))))"
proof (induction rs)
  case Nil
  then show ?case by simp
next
  case (Cons r rs)
  then obtain m where m: "MultipleFileContents cat rs = Inr m" "dom m = set rs"
      "\<forall>x\<in>set rs. m x = Some (readerFor (the (cat x)))" by auto
  from Cons.prems obtain loc where loc: "cat r = Some loc" by auto
  have "MultipleFileContents cat (r # rs) = Inr (m(r \<mapsto> readerFor loc))"
    using m(1) loc by (simp add: FileContents_def readerFor_def)
  moreover have "dom (m(r \<mapsto> readerFor loc)) = set (r # rs)" using m(2) by auto
  moreover have "\<forall>x\<in>set (r # rs). (m(r \<mapsto> readerFor loc)) x = Some (readerFor (the (cat x)))"
    using m(3) loc by auto
  ultimately show ?case by blast
qed

lemmas demo_defs = demoFile_def demoCatalog_def Add_def targetRef_def otherRef_def targetLoc_def
  resolved_def pathError_def readerFor_def

lemma unresolved_without_error:
  "pathError ftFile p = None \<Longrightarrow> resolved ftFile p = None \<Longrightarrow> ftFile p = (True, None, None)"
  by (cases "ftFile p")
     (auto simp add: pathError_def resolved_def split: option.splits if_splits)

text \<open>
  The guard of line 39 lets a path pass that \<open>ft.File\<close> reports as existing, with a nil
  reference and no error, and line 43 then dereferences nil.
\<close>

lemma resolvePaths_nil_reference:
  "\<forall>q\<in>set qs. resolved ftFile q \<noteq> None \<Longrightarrow> ftFile p = (True, None, None) \<Longrightarrow>
   resolvePaths ftFile (qs @ p # rest) = Panic"
proof (induction qs)
  case Nil
  then show ?case by simp
next
  case (Cons q qs)
  then show ?case by (auto simp add: resolved_def split: prod.splits option.splits)
qed

lemma fetchMultiple_nil_reference:
  "\<forall>q\<in>set qs. resolved ftFile q \<noteq> None \<Longrightarrow> ftFile p = (True, None, None) \<Longrightarrow>
   fetchMultipleFileContentsByPath ftFile cat (qs @ p # rest) = (Panic, [])"
  by (simp add: fetchMultipleFileContentsByPath_def resolvePaths_nil_reference)

lemma fetchMultiple_cases:
  "((\<forall>q\<in>set qs. resolved ftFile q \<noteq> None) \<and> pathError ftFile p = Some e \<longrightarrow>
      fetchMultipleFileContentsByPath ftFile cat (qs @ p # rest) = (Failure e, [])) \<and>
   ((\<forall>p\<in>set ps. resolved ftFile p \<noteq> None) \<and>
    map (\<lambda>p. the (resolved ftFile p)) ps = rs1 @ r # rs2 \<and>
    (\<forall>x\<in>set rs1. cat x \<noteq> None) \<and> cat r = None \<longrightarrow>
      fst (fetchMultipleFileContentsByPath ftFile cat ps) = Failure (UnregisteredReference r)) \<and>
   ((\<forall>p\<in>set ps. \<exists>ref loc. resolved ftFile p = Some ref \<and> cat ref = Some loc) \<longrightarrow>
      (\<exists>m. fst (fetchMultipleFileContentsByPath ftFile cat ps) = Return m \<and>
           dom m = {ref. \<exists>p\<in>set ps. resolved ftFile p = Some ref} \<and>
           (\<forall>p\<in>set ps. \<forall>ref. resolved ftFile p = Some ref \<longrightarrow>
              m ref = Some (readerFor (the (cat ref))))))"
proof -
  have a: "(\<forall>q\<in>set qs. resolved ftFile q \<noteq> None) \<and> pathError ftFile p = Some e \<longrightarrow>
      fetchMultipleFileContentsByPath ftFile cat (qs @ p # rest) = (Failure e, [])"
    using resolvePaths_first_failure[of qs ftFile p e rest]
    by (simp add: fetchMultipleFileContentsByPath_def)
  have b: "(\<forall>p\<in>set ps. resolved ftFile p \<noteq> None) \<and>
    map (\<lambda>p. the (resolved ftFile p)) ps = rs1 @ r # rs2 \<and>
    (\<forall>x\<in>set rs1. cat x \<noteq> None) \<and> cat r = None \<longrightarrow>
      fst (fetchMultipleFileContentsByPath ftFile cat ps) = Failure (UnregisteredReference r)"
    using resolvePaths_all[of ps ftFile] MultipleFileContents_first_unregistered[of rs1 cat r rs2]
    by (auto simp add: fetchMultipleFileContentsByPath_def)
  have c: "(\<forall>p\<in>set ps. \<exists>ref loc. resolved ftFile p = Some ref \<and> cat ref = Some loc) \<longrightarrow>
      (\<exists>m. fst (fetchMultipleFileContentsByPath ftFile cat ps) = Return m \<and>
           dom m = {ref. \<exists>p\<in>set ps. resolved ftFile p = Some ref} \<and>
           (\<forall>p\<in>set ps. \<forall>ref. resolved ftFile p = Some ref \<longrightarrow>
              m ref = Some (readerFor (the (cat ref)))))"
  proof
    assume h: "\<forall>p\<in>set ps. \<exists>ref loc. resolved ftFile p = Some ref \<and> cat ref = Some loc"
    let ?rs = "map (\<lambda>p. the (resolved ftFile p)) ps"
    have res: "resolvePaths ftFile ps = Return ?rs"
      using h by (intro resolvePaths_all) auto
    have reg: "\<forall>x\<in>set ?rs. cat x \<noteq> None" using h by fastforce
    from MultipleFileContents_all[OF reg] obtain m where
      m: "MultipleFileContents cat ?rs = Inr m" "dom m = set ?rs"
         "\<forall>x\<in>set ?rs. m x = Some (readerFor (the (cat x)))" by blast
    have "fst (fetchMultipleFileContentsByPath ftFile cat ps) = Return m"
      using res m(1) by (simp add: fetchMultipleFileContentsByPath_def)
    moreover have "set ?rs = {ref. \<exists>p\<in>set ps. resolved ftFile p = Some ref}"
      using h by force
    moreover have "\<forall>p\<in>set ps. \<forall>ref. resolved ftFile p = Some ref \<longrightarrow>
              m ref = Some (readerFor (the (cat ref)))"
      using m(3) by force
    ultimately show "\<exists>m. fst (fetchMultipleFileContentsByPath ftFile cat ps) = Return m \<and>
           dom m = {ref. \<exists>p\<in>set ps. resolved ftFile p = Some ref} \<and>
           (\<forall>p\<in>set ps. \<forall>ref. resolved ftFile p = Some ref \<longrightarrow>
              m ref = Some (readerFor (the (cat ref))))"
      using m(2) by auto
  qed
  from a b c show ?thesis by blast
qed

lemma first_failing_path:
  assumes wf: "\<forall>p\<in>set ps. ftFile p \<noteq> (True, None, None)"
      and some: "\<exists>p\<in>set ps. pathError ftFile p \<noteq> None"
  shows "\<exists>qs p rest e. ps = qs @ p # rest \<and> (\<forall>q\<in>set qs. resolved ftFile q \<noteq> None) \<and>
           pathError ftFile p = Some e"
proof -
  from split_list_first_prop[OF some]
  obtain qs p rest where s: "ps = qs @ p # rest" "pathError ftFile p \<noteq> None"
      "\<forall>q\<in>set qs. \<not> pathError ftFile q \<noteq> None" by blast
  have "\<forall>q\<in>set qs. resolved ftFile q \<noteq> None"
  proof
    fix q assume q: "q \<in> set qs"
    with s(1) wf have "ftFile q \<noteq> (True, None, None)" by simp
    moreover have "pathError ftFile q = None" using s(3) q by simp
    ultimately show "resolved ftFile q \<noteq> None" using unresolved_without_error by blast
  qed
  with s(1,2) show ?thesis by blast
qed

lemma first_unregistered_reference:
  assumes "\<exists>x\<in>set rs. cat x = None"
  shows "\<exists>rs1 r rs2. rs = rs1 @ r # rs2 \<and> (\<forall>x\<in>set rs1. cat x \<noteq> None) \<and> cat r = None"
  using split_list_first_prop[OF assms] by blast

text \<open>
  Claim C6, as amended. Take any list of paths none of which \<open>ft.File\<close> reports as
  existing with a nil reference and no error. Then one of three things happens.
  Some path fails to resolve: \<open>fetchMultipleFileContentsByPath\<close> returns the error of the
  first such path, no map, and does not call the catalog. Every path resolves and some
  resolved reference is not registered: it returns the error naming the first
  unregistered reference and no map. Every path resolves to a registered reference: it
  returns a map whose keys are exactly the resolved references, each with the reader of
  its locator, one reader for each distinct reference. The first three parts of the
  statement give the outcome of each case, the fourth says that the cases cover every
  such list.
\<close>

theorem fetchMultipleFileContentsByPath_atomic:
  "((\<forall>q\<in>set qs. resolved ftFile q \<noteq> None) \<and> pathError ftFile p = Some e \<longrightarrow>
      fetchMultipleFileContentsByPath ftFile cat (qs @ p # rest) = (Failure e, [])) \<and>
   ((\<forall>p\<in>set ps. resolved ftFile p \<noteq> None) \<and>
    map (\<lambda>p. the (resolved ftFile p)) ps = rs1 @ r # rs2 \<and>
    (\<forall>x\<in>set rs1. cat x \<noteq> None) \<and> cat r = None \<longrightarrow>
      fst (fetchMultipleFileContentsByPath ftFile cat ps) = Failure (UnregisteredReference r)) \<and>
   ((\<forall>p\<in>set ps. \<exists>ref loc. resolved ftFile p = Some ref \<and> cat ref = Some loc) \<longrightarrow>
      (\<exists>m. fst (fetchMultipleFileContentsByPath ftFile cat ps) = Return m \<and>
           dom m = {ref. \<exists>p\<in>set ps. resolved ftFile p = Some ref} \<and>
           (\<forall>p\<in>set ps. \<forall>ref. resolved ftFile p = Some ref \<longrightarrow>
              m ref = Some (readerFor (the (cat ref)))))) \<and>
   ((\<forall>p\<in>set ps. ftFile p \<noteq> (True, None, None)) \<longrightarrow>
      (\<exists>qs p rest e. ps = qs @ p # rest \<and> (\<forall>q\<in>set qs. resolved ftFile q \<noteq> None) \<and>
          pathError ftFile p = Some e \<and>
          fetchMultipleFileContentsByPath ftFile cat ps = (Failure e, [])) \<or>
      ((\<forall>p\<in>set ps. resolved ftFile p \<noteq> None) \<and>
       (\<exists>rs1 r rs2. map (\<lambda>p. the (resolved ftFile p)) ps = rs1 @ r # rs2 \<and>
          (\<forall>x\<in>set rs1. cat x \<noteq> None) \<and> cat r = None \<and>
          fst (fetchMultipleFileContentsByPath ftFile cat ps) = Failure (UnregisteredReference r))) \<or>
      ((\<forall>p\<in>set ps. \<exists>ref loc. resolved ftFile p = Some ref \<and> cat ref = Some loc) \<and>
       (\<exists>m. fst (fetchMultipleFileContentsByPath ftFile cat ps) = Return m \<and>
           dom m = {ref. \<exists>p\<in>set ps. resolved ftFile p = Some ref} \<and>
           (\<forall>p\<in>set ps. \<forall>ref. resolved ftFile p = Some ref \<longrightarrow>
              m ref = Some (readerFor (the (cat ref)))))))"
proof -
  note cases = fetchMultiple_cases
  have a: "(\<forall>q\<in>set qs. resolved ftFile q \<noteq> None) \<and> pathError ftFile p = Some e \<longrightarrow>
      fetchMultipleFileContentsByPath ftFile cat (qs @ p # rest) = (Failure e, [])"
    using cases[of qs ftFile p e cat rest] by blast
  have b: "(\<forall>p\<in>set ps. resolved ftFile p \<noteq> None) \<and>
    map (\<lambda>p. the (resolved ftFile p)) ps = rs1 @ r # rs2 \<and>
    (\<forall>x\<in>set rs1. cat x \<noteq> None) \<and> cat r = None \<longrightarrow>
      fst (fetchMultipleFileContentsByPath ftFile cat ps) = Failure (UnregisteredReference r)"
    using cases[of _ ftFile _ _ cat _ ps rs1 r rs2] by blast
  have c: "(\<forall>p\<in>set ps. \<exists>ref loc. resolved ftFile p = Some ref \<and> cat ref = Some loc) \<longrightarrow>
      (\<exists>m. fst (fetchMultipleFileContentsByPath ftFile cat ps) = Return m \<and>
           dom m = {ref. \<exists>p\<in>set ps. resolved ftFile p = Some ref} \<and>
           (\<forall>p\<in>set ps. \<forall>ref. resolved ftFile p = Some ref \<longrightarrow>
              m ref = Some (readerFor (the (cat ref)))))"
    using cases[of _ ftFile _ _ cat _ ps] by blast
  have d: "(\<forall>p\<in>set ps. ftFile p \<noteq> (True, None, None)) \<longrightarrow>
      (\<exists>qs p rest e. ps = qs @ p # rest \<and> (\<forall>q\<in>set qs. resolved ftFile q \<noteq> None) \<and>
          pathError ftFile p = Some e \<and>
          fetchMultipleFileContentsByPath ftFile cat ps = (Failure e, [])) \<or>
      ((\<forall>p\<in>set ps. resolved ftFile p \<noteq> None) \<and>
       (\<exists>rs1 r rs2. map (\<lambda>p. the (resolved ftFile p)) ps = rs1 @ r # rs2 \<and>
          (\<forall>x\<in>set rs1. cat x \<noteq> None) \<and> cat r = None \<and>
          fst (fetchMultipleFileContentsByPath ftFile cat ps) = Failure (UnregisteredReference r))) \<or>
      ((\<forall>p\<in>set ps. \<exists>ref loc. resolved ftFile p = Some ref \<and> cat ref = Some loc) \<and>
       (\<exists>m. fst (fetchMultipleFileContentsByPath ftFile cat ps) = Return m \<and>
           dom m = {ref. \<exists>p\<in>set ps. resolved ftFile p = Some ref} \<and>
           (\<forall>p\<in>set ps. \<forall>ref. resolved ftFile p = Some ref \<longrightarrow>
              m ref = Some (readerFor (the (cat ref))))))"
  proof
    assume wf: "\<forall>p\<in>set ps. ftFile p \<noteq> (True, None, None)"
    let ?rs = "map (\<lambda>p. the (resolved ftFile p)) ps"
    show "(\<exists>qs p rest e. ps = qs @ p # rest \<and> (\<forall>q\<in>set qs. resolved ftFile q \<noteq> None) \<and>
          pathError ftFile p = Some e \<and>
          fetchMultipleFileContentsByPath ftFile cat ps = (Failure e, [])) \<or>
      ((\<forall>p\<in>set ps. resolved ftFile p \<noteq> None) \<and>
       (\<exists>rs1 r rs2. ?rs = rs1 @ r # rs2 \<and>
          (\<forall>x\<in>set rs1. cat x \<noteq> None) \<and> cat r = None \<and>
          fst (fetchMultipleFileContentsByPath ftFile cat ps) = Failure (UnregisteredReference r))) \<or>
      ((\<forall>p\<in>set ps. \<exists>ref loc. resolved ftFile p = Some ref \<and> cat ref = Some loc) \<and>
       (\<exists>m. fst (fetchMultipleFileContentsByPath ftFile cat ps) = Return m \<and>
           dom m = {ref. \<exists>p\<in>set ps. resolved ftFile p = Some ref} \<and>
           (\<forall>p\<in>set ps. \<forall>ref. resolved ftFile p = Some ref \<longrightarrow>
              m ref = Some (readerFor (the (cat ref))))))"
    proof (cases "\<exists>p\<in>set ps. pathError ftFile p \<noteq> None")
      case True
      from first_failing_path[OF wf True]
      obtain qs' p' rest' e' where s: "ps = qs' @ p' # rest'"
          "\<forall>q\<in>set qs'. resolved ftFile q \<noteq> None" "pathError ftFile p' = Some e'" by blast
      have "fetchMultipleFileContentsByPath ftFile cat (qs' @ p' # rest') = (Failure e', [])"
        using cases[of qs' ftFile p' e' cat rest'] s(2,3) by blast
      with s show ?thesis by blast
    next
      case False
      have allres: "\<forall>p\<in>set ps. resolved ftFile p \<noteq> None"
      proof
        fix p assume p: "p \<in> set ps"
        with False have "pathError ftFile p = None" by simp
        moreover have "ftFile p \<noteq> (True, None, None)" using wf p by simp
        ultimately show "resolved ftFile p \<noteq> None" using unresolved_without_error by blast
      qed
      show ?thesis
      proof (cases "\<exists>x\<in>set ?rs. cat x = None")
        case True
        from first_unregistered_reference[OF True]
        obtain rs1' r' rs2' where u: "?rs = rs1' @ r' # rs2'"
            "\<forall>x\<in>set rs1'. cat x \<noteq> None" "cat r' = None" by blast
        have "fst (fetchMultipleFileContentsByPath ftFile cat ps) = Failure (UnregisteredReference r')"
          using cases[of _ ftFile _ _ cat _ ps rs1' r' rs2'] allres u by blast
        with allres u show ?thesis by blast
      next
        case False
        have reg: "\<forall>p\<in>set ps. \<exists>ref loc. resolved ftFile p = Some ref \<and> cat ref = Some loc"
        proof
          fix p assume p: "p \<in> set ps"
          with allres obtain ref where ref: "resolved ftFile p = Some ref" by auto
          with p have "ref \<in> set ?rs" by force
          with False obtain loc where "cat ref = Some loc" by auto
          with ref show "\<exists>ref loc. resolved ftFile p = Some ref \<and> cat ref = Some loc" by blast
        qed
        with c show ?thesis by blast
      qed
    qed
  qed
  from a b c d show ?thesis by blast
qed

text \<open>
  Claim C6 as stated fails: two paths that resolve to the same reference get one reader.
\<close>

theorem one_reader_per_path_counterexample:
  "fst (fetchMultipleFileContentsByPath demoFile demoCatalog [[''link''], [''real'', ''target'']])
     = Return (Map.empty(targetRef \<mapsto> readerFor targetLoc)) \<and>
   card (dom (Map.empty(targetRef \<mapsto> readerFor targetLoc))) = 1 \<and>
   length [[''link''], [''real'', ''target'']] = 2"
  by (simp add: fetchMultipleFileContentsByPath_def FileContents_def demo_defs)

theorem fetchMultipleFileContentsByPath_atomic_witness:
  "(\<exists>e. fetchMultipleFileContentsByPath demoFile demoCatalog [[''missing'']] = (Failure e, [])) \<and>
   fetchMultipleFileContentsByPath demoFile demoCatalog
      ([[''link'']] @ [''missing''] # [[''loop'']]) = (Failure (PathNotFound [''missing'']), []) \<and>
   fst (fetchMultipleFileContentsByPath demoFile demoCatalog [[''link''], [''somefile-2.txt'']])
      = Failure (UnregisteredReference otherRef) \<and>
   (\<exists>m. fst (fetchMultipleFileContentsByPath demoFile demoCatalog [[''link''], [''real'', ''target'']])
      = Return m \<and> m targetRef = Some (readerFor targetLoc))"
proof -
  have a: "(\<forall>q\<in>set [[''link'']]. resolved demoFile q \<noteq> None) \<and>
           pathError demoFile [''missing''] = Some (PathNotFound [''missing''])"
    by (simp add: demo_defs)
  have b: "(\<forall>p\<in>set [[''link''], [''somefile-2.txt'']]. resolved demoFile p \<noteq> None) \<and>
     map (\<lambda>p. the (resolved demoFile p)) [[''link''], [''somefile-2.txt'']] = [targetRef] @ otherRef # [] \<and>
     (\<forall>x\<in>set [targetRef]. demoCatalog x \<noteq> None) \<and> demoCatalog otherRef = None"
    by (simp add: demo_defs)
  have c: "\<forall>p\<in>set [[''link''], [''real'', ''target'']].
             \<exists>ref loc. resolved demoFile p = Some ref \<and> demoCatalog ref = Some loc"
    by (simp add: demo_defs)
  have d: "resolved demoFile [''link''] = Some targetRef" "the (demoCatalog targetRef) = targetLoc"
    by (simp_all add: demo_defs)
  have wf: "\<forall>p\<in>set [[''missing'']]. demoFile p \<noteq> (True, None, None)"
    by (simp add: demo_defs)
  have nores: "\<not> (\<forall>p\<in>set [[''missing'']]. resolved demoFile p \<noteq> None)"
    "\<not> (\<forall>p\<in>set [[''missing'']]. \<exists>ref loc. resolved demoFile p = Some ref \<and> demoCatalog ref = Some loc)"
    by (simp_all add: demo_defs)
  note t1 = fetchMultipleFileContentsByPath_atomic[of "[[''link'']]" demoFile "[''missing'']"
      "PathNotFound [''missing'']" demoCatalog "[[''loop'']]" "[[''link''], [''somefile-2.txt'']]"
      "[targetRef]" otherRef "[]"]
  note t2 = fetchMultipleFileContentsByPath_atomic[of "[]" demoFile "[]" EOF demoCatalog "[]"
      "[[''link''], [''real'', ''target'']]" "[]" otherRef "[]"]
  note t3 = fetchMultipleFileContentsByPath_atomic[of "[]" demoFile "[]" EOF demoCatalog "[]"
      "[[''missing'']]" "[]" otherRef "[]"]
  from t1[THEN conjunct1] a
  have 1: "fetchMultipleFileContentsByPath demoFile demoCatalog
      ([[''link'']] @ [''missing''] # [[''loop'']]) = (Failure (PathNotFound [''missing'']), [])"
    by (rule mp)
  from t1[THEN conjunct2, THEN conjunct1] b
  have 2: "fst (fetchMultipleFileContentsByPath demoFile demoCatalog [[''link''], [''somefile-2.txt'']])
      = Failure (UnregisteredReference otherRef)"
    by (rule mp)
  from t2[THEN conjunct2, THEN conjunct2, THEN conjunct1] c
  have "\<exists>m. fst (fetchMultipleFileContentsByPath demoFile demoCatalog [[''link''], [''real'', ''target'']])
      = Return m \<and>
     dom m = {ref. \<exists>p\<in>set [[''link''], [''real'', ''target'']]. resolved demoFile p = Some ref} \<and>
     (\<forall>p\<in>set [[''link''], [''real'', ''target'']]. \<forall>ref. resolved demoFile p = Some ref \<longrightarrow>
              m ref = Some (readerFor (the (demoCatalog ref))))"
    by (rule mp)
  then obtain m where m: "fst (fetchMultipleFileContentsByPath demoFile demoCatalog [[''link''], [''real'', ''target'']])
      = Return m" "\<forall>p\<in>set [[''link''], [''real'', ''target'']]. \<forall>ref. resolved demoFile p = Some ref \<longrightarrow>
              m ref = Some (readerFor (the (demoCatalog ref)))" by blast
  from m(2) d have 3: "m targetRef = Some (readerFor targetLoc)" by simp
  from t3[THEN conjunct2, THEN conjunct2, THEN conjunct2] wf
  have "(\<exists>qs p rest e. [[''missing'']] = qs @ p # rest \<and> (\<forall>q\<in>set qs. resolved demoFile q \<noteq> None) \<and>
          pathError demoFile p = Some e \<and>
          fetchMultipleFileContentsByPath demoFile demoCatalog [[''missing'']] = (Failure e, [])) \<or>
      ((\<forall>p\<in>set [[''missing'']]. resolved demoFile p \<noteq> None) \<and>
       (\<exists>rs1 r rs2. map (\<lambda>p. the (resolved demoFile p)) [[''missing'']] = rs1 @ r # rs2 \<and>
          (\<forall>x\<in>set rs1. demoCatalog x \<noteq> None) \<and> demoCatalog r = None \<and>
          fst (fetchMultipleFileContentsByPath demoFile demoCatalog [[''missing'']]) =
            Failure (UnregisteredReference r))) \<or>
      ((\<forall>p\<in>set [[''missing'']]. \<exists>ref loc. resolved demoFile p = Some ref \<and> demoCatalog ref = Some loc) \<and>
       (\<exists>m. fst (fetchMultipleFileContentsByPath demoFile demoCatalog [[''missing'']]) = Return m \<and>
           dom m = {ref. \<exists>p\<in>set [[''missing'']]. resolved demoFile p = Some ref} \<and>
           (\<forall>p\<in>set [[''missing'']]. \<forall>ref. resolved demoFile p = Some ref \<longrightarrow>
              m ref = Some (readerFor (the (demoCatalog ref))))))"
    by (rule mp)
  with nores
  have 0: "\<exists>e. fetchMultipleFileContentsByPath demoFile demoCatalog [[''missing'']] = (Failure e, [])"
    by blast
  from 0 1 2 3 m(1) show ?thesis by blast
qed

section \<open>The squasher: proofs\<close>

lemmas squash_defs = squash_def squashLayer_def opaqueReset_def applyAdds_def applyWhiteouts_def
  entryInfo_def isMarker_def NewFileTree_def emptyDir_def HasPath_def Let_def
  fileEntry_def dirEntry_def whiteoutEntry_def opaqueEntry_def

lemmas layer_preds = adds_def addsBelow_def addsAtOrBelow_def whitesOut_def deletes_def
  opaque_def resets_def

lemma labelAt_Nil [simp]: "labelAt t [] = Some (info t)"
  by (simp add: labelAt_def)

lemma labelAt_Cons [simp]:
  "labelAt t (x # xs) = (case children t x of None \<Rightarrow> None | Some c \<Rightarrow> labelAt c xs)"
  by (simp add: labelAt_def split: option.splits)

lemma info_emptyDir [simp]: "info emptyDir = dirInfo"
  by (simp add: emptyDir_def)

lemma labelAt_emptyDir: "labelAt emptyDir q = (if q = [] then Some dirInfo else None)"
  by (cases q) (simp_all add: emptyDir_def)

lemma HasPath_label: "HasPath t p = (labelAt t p \<noteq> None)"
  by (simp add: HasPath_def labelAt_def)

lemma label_prefix_closed:
  "labelAt t p = None \<Longrightarrow> prefix p q \<Longrightarrow> labelAt t q = None"
proof (induction p arbitrary: t q)
  case Nil
  then show ?case by simp
next
  case (Cons x xs)
  then obtain ys where q: "q = x # ys" "prefix xs ys" by (cases q) auto
  with Cons show ?case by (auto split: option.splits)
qed

lemma strict_prefix_Nil: "strict_prefix [] xs = (xs \<noteq> [])"
  by (cases xs) simp_all

lemma label_setNode:
  "labelAt (setNode p i t) q =
     (if q = p then Some i
      else if strict_prefix q p \<and> labelAt t q = None then Some dirInfo
      else labelAt t q)"
proof (induction p arbitrary: t q)
  case Nil
  then show ?case by (cases t; cases q) simp_all
next
  case (Cons x xs)
  obtain j ch where t: "t = TreeNode j ch" by (cases t)
  show ?case
  proof (cases q)
    case Nil
    with t show ?thesis by simp
  next
    case (Cons y ys)
    show ?thesis
    proof (cases "y = x")
      case False
      with Cons t show ?thesis by simp
    next
      case True
      show ?thesis
      proof (cases "ch x")
        case None
        with True Cons t Cons.IH[of emptyDir ys] show ?thesis
          by (auto simp add: labelAt_emptyDir strict_prefix_Nil)
      next
        case (Some c)
        with True Cons t Cons.IH[of c ys] show ?thesis by simp
      qed
    qed
  qed
qed

lemma label_removeChildPaths:
  "labelAt (removeChildPaths d t) q = (if strict_prefix d q then None else labelAt t q)"
proof (induction d arbitrary: t q)
  case Nil
  then show ?case by (cases t; cases q) simp_all
next
  case (Cons x xs)
  obtain j ch where t: "t = TreeNode j ch" by (cases t)
  show ?case
  proof (cases q)
    case Nil
    with t show ?thesis by (simp split: option.splits)
  next
    case (Cons y ys)
    with t Cons.IH[of _ ys] show ?thesis by (auto split: option.splits)
  qed
qed

lemma label_removePath:
  "labelAt (removePath p t) q = (if p \<noteq> [] \<and> prefix p q then None else labelAt t q)"
proof (induction p t arbitrary: q rule: removePath.induct)
  case (1 t)
  then show ?case by simp
next
  case (2 x j ch)
  then show ?case by (cases q) auto
next
  case (3 x y ys j ch)
  show ?case
  proof (cases q)
    case Nil
    then show ?thesis by (simp split: option.splits)
  next
    case (Cons z zs)
    with 3 show ?thesis by (auto split: option.splits)
  qed
qed

lemma tree_ext:
  "(\<And>p. labelAt t p = labelAt t' p) \<Longrightarrow> t = t'"
proof (induction t arbitrary: t')
  case (TreeNode i ch)
  obtain i' ch' where t': "t' = TreeNode i' ch'" by (cases t')
  have i: "i = i'" using TreeNode.prems[of "[]"] t' by simp
  have "ch x = ch' x" for x
  proof (cases "ch x")
    case None
    with TreeNode.prems[of "[x]"] t' show ?thesis by (simp split: option.splits)
  next
    case (Some c)
    with TreeNode.prems[of "[x]"] t' obtain c' where c': "ch' x = Some c'"
      by (auto split: option.splits)
    have "labelAt c p = labelAt c' p" for p
      using TreeNode.prems[of "x # p"] t' Some c' by simp
    moreover have "ch x \<in> range ch" by simp
    moreover have "c \<in> set_option (ch x)" using Some by simp
    ultimately have "c = c'" using TreeNode.IH[of "ch x" c c'] by blast
    with Some c' show ?thesis by simp
  qed
  then have "ch = ch'" by (rule ext)
  with i t' show ?case by simp
qed

lemma label_opaqueReset:
  "labelAt (opaqueReset es acc) q = (if resets es q then None else labelAt acc q)"
  unfolding opaqueReset_def
proof (induction es arbitrary: acc)
  case Nil
  then show ?case by (simp add: resets_def)
next
  case (Cons e es)
  have r: "resets (e # es) q = ((ekind e = OpaqueWhiteout \<and> strict_prefix (epath e) q) \<or> resets es q)"
    by (auto simp add: resets_def)
  show ?case
    by (simp add: Cons.IH r label_removeChildPaths)
qed

lemma label_applyWhiteouts:
  "labelAt (applyWhiteouts es acc) q = (if deletes es q then None else labelAt acc q)"
  unfolding applyWhiteouts_def
proof (induction es arbitrary: acc)
  case Nil
  then show ?case by (simp add: deletes_def)
next
  case (Cons e es)
  have r: "deletes (e # es) q =
      ((ekind e = Whiteout \<and> epath e \<noteq> [] \<and> prefix (epath e) q) \<or> deletes es q)"
    by (auto simp add: deletes_def)
  show ?case
    by (simp add: Cons.IH r label_removePath)
qed

lemma label_applyAdds:
  "labelAt (applyAdds i es acc) q =
     (case lastAdd i es q of
        Some ni \<Rightarrow> Some ni
      | None \<Rightarrow> if addsBelow es q \<and> labelAt acc q = None then Some dirInfo else labelAt acc q)"
  unfolding applyAdds_def
proof (induction es arbitrary: acc)
  case Nil
  then show ?case by (simp add: addsBelow_def)
next
  case (Cons e es)
  have r: "addsBelow (e # es) q =
      ((\<not> isMarker (ekind e) \<and> strict_prefix q (epath e)) \<or> addsBelow es q)"
    by (auto simp add: addsBelow_def)
  show ?case
    by (auto simp add: Cons.IH r label_setNode split: option.splits)
qed

lemma lastAdd_adds: "(lastAdd i es q \<noteq> None) = adds es q"
  by (induction es) (auto simp add: adds_def split: option.splits)

lemma lastAdd_kind: "lastAdd i es q = Some ni \<Longrightarrow> \<not> isMarker (kind ni)"
  by (induction es) (auto simp add: entryInfo_def split: option.splits if_splits)

lemma addsAtOrBelow_split: "addsAtOrBelow es P = (adds es P \<or> addsBelow es P)"
  by (auto simp add: addsAtOrBelow_def adds_def addsBelow_def strict_prefix_def)

lemma label_squashLayer:
  "labelAt (squashLayer i es acc) q =
     (if deletes es q then None
      else case lastAdd i es q of
        Some ni \<Rightarrow> Some ni
      | None \<Rightarrow>
          if resets es q then (if addsBelow es q then Some dirInfo else None)
          else if addsBelow es q \<and> labelAt acc q = None then Some dirInfo
          else labelAt acc q)"
  by (auto simp add: squashLayer_def label_applyWhiteouts label_applyAdds label_opaqueReset
      split: option.splits)

lemma HasPath_squashLayer:
  "HasPath (squashLayer i es acc) P =
     (\<not> deletes es P \<and> (addsAtOrBelow es P \<or> (HasPath acc P \<and> \<not> resets es P)))"
  using lastAdd_adds[of i es P]
  by (auto simp add: HasPath_label label_squashLayer addsAtOrBelow_split split: option.splits)


lemma length_squashFrom: "length (squashFrom i acc ls) = length ls"
  by (induction ls arbitrary: i acc) (simp_all add: Let_def)

lemma squashFrom_0: "ls \<noteq> [] \<Longrightarrow> squashFrom i acc ls ! 0 = squashLayer i (ls ! 0) acc"
  by (cases ls) (simp_all add: Let_def)

lemma squashFrom_Suc:
  "Suc k < length ls \<Longrightarrow>
   squashFrom i acc ls ! Suc k = squashLayer (i + Suc k) (ls ! Suc k) (squashFrom i acc ls ! k)"
proof (induction ls arbitrary: i acc k)
  case Nil
  then show ?case by simp
next
  case (Cons es ls)
  let ?a = "squashLayer i es acc"
  show ?case
  proof (cases k)
    case 0
    with Cons.prems have "ls \<noteq> []" by auto
    with 0 squashFrom_0[of ls "Suc i" ?a] show ?thesis by (simp add: Let_def)
  next
    case (Suc k')
    with Cons.prems have "Suc k' < length ls" by simp
    from Cons.IH[OF this, of "Suc i" ?a] Suc show ?thesis by (simp add: Let_def)
  qed
qed

lemma squash_0: "ls \<noteq> [] \<Longrightarrow> squash ls ! 0 = squashLayer 0 (ls ! 0) NewFileTree"
  by (simp add: squash_def squashFrom_0)

lemma squash_Suc:
  "Suc k < length ls \<Longrightarrow> squash ls ! Suc k = squashLayer (Suc k) (ls ! Suc k) (squash ls ! k)"
  using squashFrom_Suc[of k ls 0 NewFileTree] by (simp add: squash_def)

lemma length_squash: "length (squash ls) = length ls"
  by (simp add: squash_def length_squashFrom)

lemma markerFree_New: "markerFree NewFileTree"
  by (auto simp add: markerFree_def NewFileTree_def labelAt_emptyDir dirInfo_def isMarker_def
      split: if_splits)

lemma markerFree_squashLayer:
  assumes "markerFree acc"
  shows "markerFree (squashLayer i es acc)"
  unfolding markerFree_def
proof (intro allI impI)
  fix p ni
  assume l: "labelAt (squashLayer i es acc) p = Some ni"
  show "\<not> isMarker (kind ni)"
  proof (cases "lastAdd i es p")
    case (Some a)
    with l have "ni = a" by (simp add: label_squashLayer split: if_splits)
    with Some lastAdd_kind[of i es p a] show ?thesis by simp
  next
    case None
    with l have "ni = dirInfo \<or> labelAt acc p = Some ni"
      by (auto simp add: label_squashLayer split: if_splits)
    then show ?thesis
      using assms by (auto simp add: markerFree_def dirInfo_def isMarker_def)
  qed
qed

lemma markerFree_squashFrom:
  "markerFree acc \<Longrightarrow> \<forall>t\<in>set (squashFrom i acc ls). markerFree t"
proof (induction ls arbitrary: i acc)
  case Nil
  then show ?case by simp
next
  case (Cons es ls)
  have "markerFree (squashLayer i es acc)" using Cons.prems by (rule markerFree_squashLayer)
  with Cons.IH[of "squashLayer i es acc" "Suc i"] show ?case by (simp add: Let_def)
qed

lemma markerFree_nodeAt:
  "markerFree t \<Longrightarrow> nodeAt t p = Some n \<Longrightarrow>
   kind (info n) \<noteq> Whiteout \<and> kind (info n) \<noteq> OpaqueWhiteout"
  by (auto simp add: markerFree_def labelAt_def isMarker_def)

text \<open>
  Claim C1. For every sequence of layers, no node of any squash tree, at any index, and
  no node of the final squash tree is a Whiteout or an OpaqueWhiteout node.
\<close>

theorem squash_has_no_marker_nodes:
  "(\<forall>t\<in>set (squash ls). \<forall>p n. nodeAt t p = Some n \<longrightarrow>
       kind (info n) \<noteq> Whiteout \<and> kind (info n) \<noteq> OpaqueWhiteout) \<and>
   (\<forall>p n. nodeAt (finalSquash ls) p = Some n \<longrightarrow>
       kind (info n) \<noteq> Whiteout \<and> kind (info n) \<noteq> OpaqueWhiteout)"
proof -
  have all: "\<forall>t\<in>set (squash ls). markerFree t"
    unfolding squash_def using markerFree_New by (rule markerFree_squashFrom)
  have "finalSquash ls = NewFileTree \<or> finalSquash ls \<in> set (squash ls)"
    by (cases "squash ls = []") (simp_all add: finalSquash_def)
  with all markerFree_New have "markerFree (finalSquash ls)" by auto
  with all show ?thesis using markerFree_nodeAt by blast
qed

theorem squash_has_no_marker_nodes_witness:
  "(\<exists>n. nodeAt (squash imageSimple ! 2) [''really'', ''nested'', ''file-3.txt''] = Some n \<and>
        kind (info n) \<noteq> Whiteout \<and> kind (info n) \<noteq> OpaqueWhiteout) \<and>
   (\<exists>n. nodeAt (finalSquash imageSimple) [''really''] = Some n \<and>
        kind (info n) \<noteq> Whiteout \<and> kind (info n) \<noteq> OpaqueWhiteout)"
proof -
  have "2 < length (squash imageSimple)" by (simp add: length_squash imageSimple_def)
  then have m: "squash imageSimple ! 2 \<in> set (squash imageSimple)" by (rule nth_mem)
  have "HasPath (squash imageSimple ! 2) [''really'', ''nested'', ''file-3.txt'']"
    by (simp add: imageSimple_def squash_defs)
  then obtain n where n: "nodeAt (squash imageSimple ! 2) [''really'', ''nested'', ''file-3.txt''] = Some n"
    by (auto simp add: HasPath_def)
  have "HasPath (finalSquash imageSimple) [''really'']"
    by (simp add: imageSimple_def finalSquash_def squash_defs)
  then obtain n' where n': "nodeAt (finalSquash imageSimple) [''really''] = Some n'"
    by (auto simp add: HasPath_def)
  from squash_has_no_marker_nodes[of imageSimple] m n n' show ?thesis by blast
qed

lemma removePath_absent:
  assumes "\<not> HasPath acc P"
  shows "removePath P acc = acc"
proof (rule tree_ext)
  fix q
  show "labelAt (removePath P acc) q = labelAt acc q"
    using assms label_prefix_closed[of acc P q]
    by (auto simp add: label_removePath HasPath_label)
qed

lemma present_stays:
  assumes "k' < length ls"
      and "HasPath (squash ls ! k) P"
      and "\<forall>m. k < m \<and> m \<le> k' \<longrightarrow> \<not> deletes (ls ! m) P \<and> \<not> resets (ls ! m) P"
      and "k \<le> k'"
  shows "HasPath (squash ls ! k') P"
  using assms(4,1,3)
proof (induction k' rule: dec_induct)
  case base
  then show ?case using assms(2) by simp
next
  case (step n)
  then have "HasPath (squash ls ! n) P" by simp
  moreover have "\<not> deletes (ls ! Suc n) P \<and> \<not> resets (ls ! Suc n) P" using step by simp
  ultimately show ?case using step.prems(1) by (simp add: squash_Suc HasPath_squashLayer)
qed

lemma absent_stays:
  assumes "k' < length ls"
      and "\<not> HasPath (squash ls ! k) P"
      and "\<forall>m. k < m \<and> m \<le> k' \<longrightarrow> \<not> addsAtOrBelow (ls ! m) P"
      and "k \<le> k'"
  shows "\<not> HasPath (squash ls ! k') P"
  using assms(4,1,3)
proof (induction k' rule: dec_induct)
  case base
  then show ?case using assms(2) by simp
next
  case (step n)
  then have "\<not> HasPath (squash ls ! n) P" by simp
  moreover have "\<not> addsAtOrBelow (ls ! Suc n) P" using step by simp
  ultimately show ?case using step.prems(1) by (simp add: squash_Suc HasPath_squashLayer)
qed

lemma squash_at:
  "k < length ls \<Longrightarrow> \<exists>acc. squash ls ! k = squashLayer k (ls ! k) acc"
  by (cases k) (auto simp add: squash_0 squash_Suc)

text \<open>
  Claim C2, as amended. Let layer \<open>i\<close> add the path \<open>P\<close>, which is not the root, and
  let layer \<open>j > i\<close> white it out.
  If no layer from \<open>i\<close> to \<open>j - 1\<close> whites out \<open>P\<close> or an ancestor of \<open>P\<close>, and no layer
  strictly between carries an opaque whiteout of an ancestor of \<open>P\<close>, then \<open>P\<close> is present
  in every squash tree of index in \<open>[i, j)\<close>. \<open>P\<close> is absent from the squash tree of index
  \<open>j\<close>, and from that of every later index \<open>k\<close> such that no layer after \<open>j\<close> up to \<open>k\<close>
  adds \<open>P\<close> or a path beneath it. Deleting a path that the accumulator does not have
  leaves the accumulator as it is.
\<close>

theorem whiteout_after_add:
  assumes "i < j" and "j \<le> k" and "k < length ls"
      and "adds (ls ! i) P" and "whitesOut (ls ! j) P" and "P \<noteq> []"
  shows "((\<forall>m. i \<le> m \<and> m < j \<longrightarrow> \<not> deletes (ls ! m) P) \<and>
          (\<forall>m. i < m \<and> m < j \<longrightarrow> \<not> resets (ls ! m) P) \<longrightarrow>
            (\<forall>m. i \<le> m \<and> m < j \<longrightarrow> HasPath (squash ls ! m) P)) \<and>
         ((\<forall>m. j < m \<and> m \<le> k \<longrightarrow> \<not> addsAtOrBelow (ls ! m) P) \<longrightarrow>
            \<not> HasPath (squash ls ! k) P) \<and>
         (\<forall>acc. \<not> HasPath acc P \<longrightarrow> removePath P acc = acc)"
proof -
  have a: "(\<forall>m. i \<le> m \<and> m < j \<longrightarrow> \<not> deletes (ls ! m) P) \<and>
          (\<forall>m. i < m \<and> m < j \<longrightarrow> \<not> resets (ls ! m) P) \<longrightarrow>
            (\<forall>m. i \<le> m \<and> m < j \<longrightarrow> HasPath (squash ls ! m) P)"
  proof (intro impI allI)
    fix m
    assume h: "(\<forall>m. i \<le> m \<and> m < j \<longrightarrow> \<not> deletes (ls ! m) P) \<and>
          (\<forall>m. i < m \<and> m < j \<longrightarrow> \<not> resets (ls ! m) P)" and m: "i \<le> m \<and> m < j"
    have ilen: "i < length ls" using assms(1,2,3) by simp
    obtain acc where "squash ls ! i = squashLayer i (ls ! i) acc" using squash_at[OF ilen] by blast
    moreover have "addsAtOrBelow (ls ! i) P" using assms(4) by (simp add: addsAtOrBelow_split)
    moreover have "\<not> deletes (ls ! i) P" using h assms(1) by simp
    ultimately have at_i: "HasPath (squash ls ! i) P" by (simp add: HasPath_squashLayer)
    show "HasPath (squash ls ! m) P"
    proof (rule present_stays[OF _ at_i])
      show "m < length ls" using m assms(2,3) by simp
      show "\<forall>n. i < n \<and> n \<le> m \<longrightarrow> \<not> deletes (ls ! n) P \<and> \<not> resets (ls ! n) P"
        using h m by simp
      show "i \<le> m" using m by simp
    qed
  qed
  have b: "(\<forall>m. j < m \<and> m \<le> k \<longrightarrow> \<not> addsAtOrBelow (ls ! m) P) \<longrightarrow> \<not> HasPath (squash ls ! k) P"
  proof
    assume h: "\<forall>m. j < m \<and> m \<le> k \<longrightarrow> \<not> addsAtOrBelow (ls ! m) P"
    have jlen: "j < length ls" using assms(2,3) by simp
    obtain acc where "squash ls ! j = squashLayer j (ls ! j) acc" using squash_at[OF jlen] by blast
    moreover have "deletes (ls ! j) P" using assms(5,6) by (auto simp add: whitesOut_def deletes_def)
    ultimately have at_j: "\<not> HasPath (squash ls ! j) P" by (simp add: HasPath_squashLayer)
    show "\<not> HasPath (squash ls ! k) P"
      by (rule absent_stays[OF assms(3) at_j h assms(2)])
  qed
  from a b removePath_absent show ?thesis by blast
qed

text \<open>
  Claim C2 as stated fails: a path added by layer 0 and whited out by layer 1 is present
  again at index 2 when layer 2 adds it again.
\<close>

theorem readded_counterexample:
  "adds (readded ! 0) [''a''] \<and> whitesOut (readded ! 1) [''a''] \<and>
   HasPath (squash readded ! 0) [''a''] \<and> \<not> HasPath (squash readded ! 1) [''a''] \<and>
   HasPath (squash readded ! 2) [''a'']"
  by (simp add: readded_def squash_defs layer_preds)

theorem whiteout_after_add_witness:
  "HasPath (squash deletedLater ! 0) [''a''] \<and> HasPath (squash deletedLater ! 1) [''a''] \<and>
   \<not> HasPath (squash deletedLater ! 2) [''a''] \<and> \<not> HasPath (squash deletedLater ! 3) [''a''] \<and>
   removePath [''a''] NewFileTree = NewFileTree"
proof -
  have h: "(0::nat) < 2" "3 < length deletedLater" "adds (deletedLater ! 0) [''a'']"
      "whitesOut (deletedLater ! 2) [''a'']" "[''a''] \<noteq> []"
    by (simp_all add: deletedLater_def layer_preds fileEntry_def whiteoutEntry_def isMarker_def)
  have two: "m < 2 \<longleftrightarrow> m = 0 \<or> m = 1" for m :: nat by auto
  have p: "(\<forall>m. 0 \<le> m \<and> m < 2 \<longrightarrow> \<not> deletes (deletedLater ! m) [''a'']) \<and>
           (\<forall>m. 0 < m \<and> m < 2 \<longrightarrow> \<not> resets (deletedLater ! m) [''a''])"
    by (auto simp add: two deletedLater_def layer_preds fileEntry_def whiteoutEntry_def)
  have three: "2 < m \<and> m \<le> 3 \<longleftrightarrow> m = 3" for m :: nat by auto
  have q: "\<forall>m. 2 < m \<and> m \<le> 3 \<longrightarrow> \<not> addsAtOrBelow (deletedLater ! m) [''a'']"
    by (auto simp add: three deletedLater_def layer_preds fileEntry_def whiteoutEntry_def)
  have le: "(2::nat) \<le> 3" "(2::nat) \<le> 2" "2 < length deletedLater"
    by (simp_all add: deletedLater_def)
  from whiteout_after_add[OF h(1) le(1) h(2,3,4,5)] p q
  have a: "\<forall>m. 0 \<le> m \<and> m < 2 \<longrightarrow> HasPath (squash deletedLater ! m) [''a'']"
    and b: "\<not> HasPath (squash deletedLater ! 3) [''a'']" by auto
  from whiteout_after_add[OF h(1) le(2) le(3) h(3,4,5)]
  have c: "\<not> HasPath (squash deletedLater ! 2) [''a'']" by auto
  have "\<not> HasPath NewFileTree [''a'']"
    by (simp add: squash_defs)
  with whiteout_after_add[OF h(1) le(2) le(3) h(3,4,5)]
  have d: "removePath [''a''] NewFileTree = NewFileTree" by blast
  from a have "HasPath (squash deletedLater ! 0) [''a'']" "HasPath (squash deletedLater ! 1) [''a'']"
    by simp_all
  with b c d show ?thesis by simp
qed



lemma lastAdd_distinct:
  "distinct (map epath (filter (\<lambda>e. \<not> isMarker (ekind e)) es)) \<Longrightarrow> e \<in> set es \<Longrightarrow>
   \<not> isMarker (ekind e) \<Longrightarrow> lastAdd i es (epath e) = Some (entryInfo i e)"
proof (induction es)
  case Nil
  then show ?case by simp
next
  case (Cons a es)
  show ?case
  proof (cases "e \<in> set es")
    case True
    with Cons have "lastAdd i es (epath e) = Some (entryInfo i e)" by (simp split: if_splits)
    then show ?thesis by simp
  next
    case False
    with Cons.prems have ea: "e = a" by simp
    have "\<not> adds es (epath e)"
    proof
      assume "adds es (epath e)"
      then obtain e' where "e' \<in> set es" "\<not> isMarker (ekind e')" "epath e' = epath e"
        by (auto simp add: adds_def)
      then have "epath a \<in> epath ` {x \<in> set es. \<not> isMarker (ekind x)}"
        using ea by (auto intro!: image_eqI[where x = e'])
      with Cons.prems(1,3) ea show False by simp
    qed
    then have "lastAdd i es (epath e) = None" using lastAdd_adds[of i es "epath e"] by simp
    with ea Cons.prems(3) show ?thesis by simp
  qed
qed

lemma lastAdd_reordered:
  assumes "mset es' = mset es"
      and "distinct (map epath (filter (\<lambda>e. \<not> isMarker (ekind e)) es))"
  shows "lastAdd i es' q = lastAdd i es q"
proof -
  have s: "set es' = set es" using assms(1) by (rule mset_eq_setD)
  have "mset (map epath (filter (\<lambda>e. \<not> isMarker (ekind e)) es')) =
        mset (map epath (filter (\<lambda>e. \<not> isMarker (ekind e)) es))"
    using assms(1) by simp
  then have d': "distinct (map epath (filter (\<lambda>e. \<not> isMarker (ekind e)) es'))"
    using assms(2) by (metis mset_eq_imp_distinct_iff)
  show ?thesis
  proof (cases "adds es q")
    case True
    then obtain e where e: "e \<in> set es" "\<not> isMarker (ekind e)" "epath e = q"
      by (auto simp add: adds_def)
    from lastAdd_distinct[OF assms(2) e(1,2), of i] lastAdd_distinct[OF d' _ e(2), of i] e s
    show ?thesis by simp
  next
    case False
    then have "\<not> adds es' q" using s by (simp add: adds_def)
    with False lastAdd_adds[of i es q] lastAdd_adds[of i es' q] show ?thesis by simp
  qed
qed

lemma squashLayer_reordered:
  assumes "mset es' = mset es"
      and "distinct (map epath (filter (\<lambda>e. \<not> isMarker (ekind e)) es))"
  shows "squashLayer i es' acc = squashLayer i es acc"
proof (rule tree_ext)
  fix q
  have s: "set es' = set es" using assms(1) by (rule mset_eq_setD)
  have e: "deletes es' q = deletes es q" "resets es' q = resets es q"
      "addsBelow es' q = addsBelow es q"
    using s by (simp_all add: deletes_def resets_def addsBelow_def)
  have l: "lastAdd i es' q = lastAdd i es q" by (rule lastAdd_reordered[OF assms])
  show "labelAt (squashLayer i es' acc) q = labelAt (squashLayer i es acc) q"
    by (simp only: label_squashLayer e l)
qed

lemma squashLayer_idem:
  "squashLayer i es (squashLayer i es acc) = squashLayer i es acc"
proof (rule tree_ext)
  fix q
  show "labelAt (squashLayer i es (squashLayer i es acc)) q = labelAt (squashLayer i es acc) q"
    by (simp add: label_squashLayer split: option.splits)
qed

text \<open>
  Claim C4. A path (not the root) that a layer both adds and whites out is absent from
  the accumulator after that layer: the whiteout wins. Enumerating the entries of the layer in another
  order gives the same accumulator, the entries naming each added path once, as the
  nodes of a tree do. Applying the layer twice gives the same accumulator as applying
  it once.
\<close>

theorem whiteout_wins:
  "(adds es P \<and> whitesOut es P \<and> P \<noteq> [] \<longrightarrow> \<not> HasPath (squashLayer i es acc) P) \<and>
   (mset es' = mset es \<and> distinct (map epath (filter (\<lambda>e. \<not> isMarker (ekind e)) es)) \<longrightarrow>
      squashLayer i es' acc = squashLayer i es acc) \<and>
   squashLayer i es (squashLayer i es acc) = squashLayer i es acc"
proof -
  have a: "adds es P \<and> whitesOut es P \<and> P \<noteq> [] \<longrightarrow> \<not> HasPath (squashLayer i es acc) P"
    by (auto simp add: HasPath_squashLayer whitesOut_def deletes_def)
  from a squashLayer_reordered[of es' es i acc] squashLayer_idem[of i es acc]
  show ?thesis by blast
qed

theorem whiteout_wins_witness:
  "\<not> HasPath (squashLayer 0 addAndWhiteout NewFileTree) [''a''] \<and>
   squashLayer 0 (rev addAndWhiteout) NewFileTree = squashLayer 0 addAndWhiteout NewFileTree"
proof -
  have a: "adds addAndWhiteout [''a''] \<and> whitesOut addAndWhiteout [''a''] \<and> [''a''] \<noteq> []"
    by (simp add: addAndWhiteout_def layer_preds fileEntry_def whiteoutEntry_def isMarker_def)
  have b: "mset (rev addAndWhiteout) = mset addAndWhiteout \<and>
           distinct (map epath (filter (\<lambda>e. \<not> isMarker (ekind e)) addAndWhiteout))"
    by (simp add: addAndWhiteout_def fileEntry_def whiteoutEntry_def isMarker_def)
  from whiteout_wins[of addAndWhiteout "[''a'']" 0 NewFileTree "rev addAndWhiteout"] a b
  show ?thesis by blast
qed

end
